theory Spec2Isabelle
  imports Complex_Main "HOL-Library.Multiset"
begin

section \<open>Data model\<close>

text \<open>
  The scheduler simulator of \<^verbatim>\<open>src/main.go\<close>. Go's \<^verbatim>\<open>int64\<close> fields are modelled as
  unbounded integers; a statement about every process set says under which bound the
  values of the run stay inside the 64-bit range, where the program computes the same. A \<^verbatim>\<open>float64\<close> is either a finite value, taken exactly as a
  rational (rounding is not modelled), or one of the three special values that a division
  with a zero denominator yields.
\<close>

record Process =
  ProcessID :: int
  ArrivalTime :: int
  BurstDuration :: int
  Priority :: int

record TimeSlice =
  PID :: int
  Start :: int
  Stop :: int

text \<open>
  A row of the schedule table. The source builds it as seven strings, each the decimal
  rendering of an \<^verbatim>\<open>int64\<close>; the model keeps the integers. The field names follow the
  table header \<^verbatim>\<open>ID, Priority, Burst, Arrival, Wait, Turnaround, Exit\<close>.
\<close>

record ScheduleRow =
  rowID :: int
  rowPriority :: int
  rowBurst :: int
  rowArrival :: int
  rowWait :: int
  rowTurnaround :: int
  rowExit :: int

datatype float64 = Finite rat | PosInf | NegInf | NaN

text \<open>Division of two finite \<^verbatim>\<open>float64\<close> values, the denominator never being \<^verbatim>\<open>-0\<close>.\<close>

definition fdiv :: "rat \<Rightarrow> rat \<Rightarrow> float64" where
  "fdiv a b =
     (if b = 0 then (if a = 0 then NaN else if 0 < a then PosInf else NegInf)
      else Finite (a / b))"

text \<open>
  The verb \<^verbatim>\<open>%.2f\<close> of the footer, as a number of hundredths of the exact quotient. (A
  value half-way between two hundredths is rounded up here; the program rounds the binary
  \<^verbatim>\<open>float64\<close>.)
\<close>

fun fmt2 :: "float64 \<Rightarrow> int option" where
  "fmt2 (Finite x) = Some (round (x * 100))"
| "fmt2 PosInf = None"
| "fmt2 NegInf = None"
| "fmt2 NaN = None"

text \<open>
  What a policy hands to \<^verbatim>\<open>outputGantt\<close> and \<^verbatim>\<open>outputSchedule\<close> (or prints itself): the
  table rows, the timeline and the three aggregate figures.
\<close>

record Report =
  rows :: "ScheduleRow list"
  timeline :: "TimeSlice list"
  aveWait :: float64
  aveTurnaround :: float64
  aveThroughput :: float64

definition mkProcess :: "int \<Rightarrow> int \<Rightarrow> int \<Rightarrow> Process" where
  \<comment> \<open>A CSV row \<^verbatim>\<open>id,burst,arrival\<close> as \<^verbatim>\<open>loadProcesses\<close> reads it; the priority stays 0.\<close>
  "mkProcess i b a = \<lparr>ProcessID = i, ArrivalTime = a, BurstDuration = b, Priority = 0\<rparr>"

text \<open>The input invariant of the data model.\<close>

definition valid :: "Process list \<Rightarrow> bool" where
  "valid ps = list_all (\<lambda>p. 0 \<le> ArrivalTime p \<and> 0 < BurstDuration p) ps"

section \<open>First-come, first-served\<close>

text \<open>
  The variables of \<^verbatim>\<open>FCFSSchedule\<close> that live across iterations. \<^verbatim>\<open>waitingTime\<close> is
  declared outside the loop, so an iteration that does not assign it sees the value of
  the iteration before. The accumulator \<^verbatim>\<open>turnaround float64\<close> of the \<^verbatim>\<open>var\<close> block is
  shadowed inside the loop by \<^verbatim>\<open>turnaround := ...\<close>; the statement
  \<^verbatim>\<open>turnaround += float64(turnaround)\<close> therefore names the inner variable on both sides
  (it mixes \<^verbatim>\<open>int64\<close> and \<^verbatim>\<open>float64\<close>; read on the values, it adds the inner variable to
  itself before the row is written), and the accumulator keeps its initial value 0.
\<close>

record FCFSState =
  serviceTime :: int
  fTotalWait :: rat
  fTurnaround :: rat
  lastCompletion :: rat
  waitingTime :: int
  fSchedule :: "ScheduleRow list"
  fGantt :: "TimeSlice list"

definition FCFSInit :: FCFSState where
  "FCFSInit = \<lparr>serviceTime = 0, fTotalWait = 0, fTurnaround = 0, lastCompletion = 0,
     waitingTime = 0, fSchedule = [], fGantt = []\<rparr>"

definition FCFSBody :: "FCFSState \<Rightarrow> Process \<Rightarrow> FCFSState" where
  "FCFSBody s p =
     (let w = (if 0 < ArrivalTime p then serviceTime s - ArrivalTime p else waitingTime s);
          start = w + ArrivalTime p;
          turnaround0 = BurstDuration p + w;
          turnaround1 = turnaround0 + turnaround0;
          completion = BurstDuration p + ArrivalTime p + w;
          serviceTime1 = serviceTime s + BurstDuration p
      in s\<lparr>waitingTime := w,
            fTotalWait := fTotalWait s + of_int w,
            lastCompletion := of_int completion,
            fSchedule := fSchedule s @
              [\<lparr>rowID = ProcessID p, rowPriority = Priority p, rowBurst = BurstDuration p,
                rowArrival = ArrivalTime p, rowWait = w, rowTurnaround = turnaround1,
                rowExit = completion\<rparr>],
            serviceTime := serviceTime1,
            fGantt := fGantt s @ [\<lparr>PID = ProcessID p, Start = start, Stop = serviceTime1\<rparr>]\<rparr>)"

definition FCFSLoop :: "Process list \<Rightarrow> FCFSState" where
  "FCFSLoop processes = foldl FCFSBody FCFSInit processes"

definition FCFSSchedule :: "Process list \<Rightarrow> Report" where
  "FCFSSchedule processes =
     (let s = FCFSLoop processes;
          count = of_nat (length processes)
      in \<lparr>rows = fSchedule s, timeline = fGantt s,
          aveWait = fdiv (fTotalWait s) count,
          aveTurnaround = fdiv (fTurnaround s) count,
          aveThroughput = fdiv count (lastCompletion s)\<rparr>)"

section \<open>Removing from the slice in place\<close>

text \<open>
  \<^verbatim>\<open>SJFSchedule\<close> and \<^verbatim>\<open>RRSchedule\<close> receive the slice \<^verbatim>\<open>processes\<close> by value, which
  copies the slice header only: the backing array is the caller's. The model keeps the
  backing array and the current length apart. The statement
  \<^verbatim>\<open>processes = append(processes[:i], processes[i+1:]...)\<close> never exceeds the capacity,
  so it copies the elements \<^verbatim>\<open>i+1 .. n-1\<close> one place down inside the same array and
  shortens the local slice by one; the array cell \<^verbatim>\<open>n-1\<close> keeps its old content.
\<close>

definition removeAt :: "Process list \<Rightarrow> nat \<Rightarrow> nat \<Rightarrow> Process list" where
  "removeAt arr n i = take i arr @ drop (i + 1) (take n arr) @ drop (n - 1) arr"

text \<open>
  The inner loop of both policies, \<^verbatim>\<open>for i := 0; i < len(processes); { ... }\<close>: a process
  that satisfies the admission test is pushed (appended to the heap's or the queue's
  slice) and removed from \<^verbatim>\<open>processes\<close>, the index staying where it is; otherwise the
  index moves on. The admission test is \<^verbatim>\<open>ArrivalTime <= currentTime && BurstDuration > 0\<close>
  in \<^verbatim>\<open>SJFSchedule\<close> and \<^verbatim>\<open>ArrivalTime <= currentTime\<close> in \<^verbatim>\<open>RRSchedule\<close>.
\<close>

function admit ::
  "(Process \<Rightarrow> bool) \<Rightarrow> Process list \<Rightarrow> nat \<Rightarrow> nat \<Rightarrow> Process list
     \<Rightarrow> Process list \<times> nat \<times> Process list" where
  "admit ready arr n i q =
     (if i < n then
        (if ready (arr ! i) then admit ready (removeAt arr n i) (n - 1) i (q @ [arr ! i])
         else admit ready arr n (i + 1) q)
      else (arr, n, q))"
  by pat_completeness auto
termination
  by (relation "measure (\<lambda>(ready, arr, n, i, q). n - i)") auto

declare admit.simps [simp del]

section \<open>Shortest job first\<close>

text \<open>
  The file declares \<^verbatim>\<open>SJFSchedule\<close> twice. The model is the second declaration, the one
  that fills the schedule table and the timeline and hands them to \<^verbatim>\<open>outputGantt\<close> and
  \<^verbatim>\<open>outputSchedule\<close>.
\<close>

text \<open>
  Modelled from the spec: the type \<^verbatim>\<open>PriorityHeap\<close> and its \<^verbatim>\<open>Less\<close> are not in the source
  file. The spec gives the order of the ready set: smallest burst duration first, ties
  broken by earliest arrival, then lowest processID.
\<close>

definition Less :: "Process \<Rightarrow> Process \<Rightarrow> bool" where
  "Less p q =
     (BurstDuration p < BurstDuration q \<or>
      (BurstDuration p = BurstDuration q \<and>
        (ArrivalTime p < ArrivalTime q \<or>
         (ArrivalTime p = ArrivalTime q \<and> ProcessID p < ProcessID q))))"

text \<open>
  Modelled from the spec: \<^verbatim>\<open>heap.Pop\<close> on the missing \<^verbatim>\<open>PriorityHeap\<close> pops the minimum of
  the ready set by the order above. The ready set is kept as the list of pushed
  processes; of several minimal entries the one pushed first is taken.
\<close>

fun heapMin :: "Process \<Rightarrow> Process list \<Rightarrow> Process" where
  "heapMin m [] = m"
| "heapMin m (x # xs) = heapMin (if Less x m then x else m) xs"

record SJFState =
  sProcesses :: "Process list"
  sLen :: nat
  sHeap :: "Process list"
  sTotalWait :: rat
  sTotalTurnaround :: rat
  sSchedule :: "ScheduleRow list"
  sGantt :: "TimeSlice list"
  sCurrentTime :: int

definition SJFInit :: "Process list \<Rightarrow> SJFState" where
  "SJFInit processes =
     \<lparr>sProcesses = processes, sLen = length processes, sHeap = [], sTotalWait = 0,
      sTotalTurnaround = 0, sSchedule = [], sGantt = [], sCurrentTime = 0\<rparr>"

definition SJFReady :: "int \<Rightarrow> Process \<Rightarrow> bool" where
  "SJFReady t p = (ArrivalTime p \<le> t \<and> 0 < BurstDuration p)"

definition SJFServe :: "SJFState \<Rightarrow> Process \<Rightarrow> Process list \<Rightarrow> SJFState" where
  "SJFServe s p h =
     (let startTime = sCurrentTime s;
          currentTime = sCurrentTime s + BurstDuration p;
          waitTime = startTime - ArrivalTime p;
          turnaroundTime = currentTime - ArrivalTime p
      in s\<lparr>sHeap := h,
            sCurrentTime := currentTime,
            sTotalWait := sTotalWait s + of_int waitTime,
            sTotalTurnaround := sTotalTurnaround s + of_int turnaroundTime,
            sSchedule := sSchedule s @
              [\<lparr>rowID = ProcessID p, rowPriority = Priority p,
                rowBurst = BurstDuration p + waitTime, rowArrival = ArrivalTime p,
                rowWait = waitTime, rowTurnaround = turnaroundTime,
                rowExit = currentTime\<rparr>],
            sGantt := sGantt s @
              [\<lparr>PID = ProcessID p, Start = startTime, Stop = currentTime\<rparr>]\<rparr>)"

definition SJFBody :: "SJFState \<Rightarrow> SJFState" where
  "SJFBody s =
     (case admit (SJFReady (sCurrentTime s)) (sProcesses s) (sLen s) 0 (sHeap s) of
        (arr, n, h) \<Rightarrow>
          (let s1 = s\<lparr>sProcesses := arr, sLen := n, sHeap := h\<rparr>
           in case h of
                [] \<Rightarrow> s1\<lparr>sCurrentTime := sCurrentTime s + 1\<rparr>
              | x # xs \<Rightarrow> (let p = heapMin x xs in SJFServe s1 p (remove1 p h))))"

partial_function (option) SJFLoop :: "SJFState \<Rightarrow> SJFState option" where
  "SJFLoop s =
     (if sHeap s \<noteq> [] \<or> 0 < sLen s then SJFLoop (SJFBody s) else Some s)"

declare SJFLoop.simps [code]

definition SJFReport :: "SJFState \<Rightarrow> Report" where
  "SJFReport s =
     \<lparr>rows = sSchedule s, timeline = sGantt s,
      aveWait = fdiv (sTotalWait s) (of_nat (length (sSchedule s))),
      aveTurnaround = fdiv (sTotalTurnaround s) (of_nat (length (sSchedule s))),
      aveThroughput = fdiv (of_nat (length (sSchedule s))) (of_int (sCurrentTime s))\<rparr>"

text \<open>The state in which the loop of \<^verbatim>\<open>SJFSchedule\<close> ends, if it ends.\<close>

definition SJFRun :: "Process list \<Rightarrow> SJFState option" where
  "SJFRun processes = SJFLoop (SJFInit processes)"

definition SJFSchedule :: "Process list \<Rightarrow> Report option" where
  "SJFSchedule processes = map_option SJFReport (SJFRun processes)"

subsection \<open>The first declaration\<close>

text \<open>
  The first declaration of \<^verbatim>\<open>SJFSchedule\<close> (it sorts the slice by arrival with
  \<^verbatim>\<open>sort.Slice\<close>, then loops): every turn pushes a copy of each process of the slice that
  has arrived, pops one process, serves it for one time unit and pushes it back unless
  its burst has reached 0. The slice \<open>processes\<close> below is the slice as sorted. The type
  \<^verbatim>\<open>IntHeap\<close> is not in the source file; its pop is taken as that of the ready set above,
  the source calling it a min heap that gives the process with the shortest burst time.
\<close>

record SJFUnitState =
  uHeap :: "Process list"
  uCurrentTime :: int
  uTurnaround :: int
  uTotalWait :: int
  uCompleted :: nat

definition SJFUnitInit :: SJFUnitState where
  "SJFUnitInit = \<lparr>uHeap = [], uCurrentTime = 0, uTurnaround = 0, uTotalWait = 0, uCompleted = 0\<rparr>"

definition SJFUnitBody :: "Process list \<Rightarrow> SJFUnitState \<Rightarrow> SJFUnitState" where
  "SJFUnitBody processes s =
     (let h = uHeap s @ filter (SJFReady (uCurrentTime s)) processes
      in case h of
           [] \<Rightarrow> s\<lparr>uCurrentTime := uCurrentTime s + 1\<rparr>
         | x # xs \<Rightarrow>
             (let p0 = heapMin x xs;
                  h1 = remove1 p0 h;
                  p = p0\<lparr>BurstDuration := BurstDuration p0 - 1\<rparr>;
                  currentTime = uCurrentTime s + 1
              in if BurstDuration p = 0 then
                   s\<lparr>uHeap := h1, uCurrentTime := currentTime,
                     uCompleted := uCompleted s + 1,
                     uTurnaround := uTurnaround s + (currentTime - ArrivalTime p),
                     uTotalWait := uTotalWait s + (currentTime - ArrivalTime p - BurstDuration p)\<rparr>
                 else s\<lparr>uHeap := h1 @ [p], uCurrentTime := currentTime\<rparr>))"

partial_function (option) SJFUnitLoop :: "Process list \<Rightarrow> SJFUnitState \<Rightarrow> SJFUnitState option" where
  "SJFUnitLoop processes s =
     (if uCompleted s < length processes \<or> uHeap s \<noteq> []
      then SJFUnitLoop processes (SJFUnitBody processes s) else Some s)"

declare SJFUnitLoop.simps [code]

section \<open>Round robin\<close>

definition timeQuantum :: int where
  "timeQuantum = 2"

record RRState =
  rProcesses :: "Process list"
  rLen :: nat
  rQueue :: "Process list"
  rTotalWait :: int
  rTurnaround :: int
  rCurrentTime :: int

definition RRInit :: "Process list \<Rightarrow> RRState" where
  "RRInit processes =
     \<lparr>rProcesses = processes, rLen = length processes, rQueue = [], rTotalWait = 0,
      rTurnaround = 0, rCurrentTime = 0\<rparr>"

definition RRReady :: "int \<Rightarrow> Process \<Rightarrow> bool" where
  "RRReady t p = (ArrivalTime p \<le> t)"

definition RRServe :: "RRState \<Rightarrow> Process \<Rightarrow> Process list \<Rightarrow> RRState" where
  "RRServe s p queue =
     (if timeQuantum < BurstDuration p then
        s\<lparr>rCurrentTime := rCurrentTime s + timeQuantum,
          rQueue := queue @ [p\<lparr>BurstDuration := BurstDuration p - timeQuantum\<rparr>]\<rparr>
      else
        (let currentTime = rCurrentTime s + BurstDuration p
         in s\<lparr>rCurrentTime := currentTime,
               rQueue := queue,
               rTurnaround := rTurnaround s + (currentTime - ArrivalTime p),
               rTotalWait := rTotalWait s + (currentTime - ArrivalTime p - BurstDuration p)\<rparr>))"

definition RRBody :: "RRState \<Rightarrow> RRState" where
  "RRBody s =
     (case admit (RRReady (rCurrentTime s)) (rProcesses s) (rLen s) 0 (rQueue s) of
        (arr, n, q) \<Rightarrow>
          (let s1 = s\<lparr>rProcesses := arr, rLen := n, rQueue := q\<rparr>
           in case q of
                [] \<Rightarrow> s1\<lparr>rCurrentTime := rCurrentTime s + 1\<rparr>
              | p # queue \<Rightarrow> RRServe s1 p queue))"

partial_function (option) RRLoop :: "RRState \<Rightarrow> RRState option" where
  "RRLoop s =
     (if rQueue s \<noteq> [] \<or> 0 < rLen s then RRLoop (RRBody s) else Some s)"

declare RRLoop.simps [code]

text \<open>
  \<^verbatim>\<open>RRSchedule\<close> builds no table and no timeline and calls neither \<^verbatim>\<open>outputGantt\<close> nor
  \<^verbatim>\<open>outputSchedule\<close>: it prints the three figures only, each a quotient by
  \<^verbatim>\<open>len(processes)\<close> as it is after the loop.
\<close>

definition RRReport :: "RRState \<Rightarrow> Report" where
  "RRReport s =
     \<lparr>rows = [], timeline = [],
      aveWait = fdiv (of_int (rTotalWait s)) (of_nat (rLen s)),
      aveTurnaround = fdiv (of_int (rTurnaround s)) (of_nat (rLen s)),
      aveThroughput = fdiv (of_nat (rLen s)) (of_int (rCurrentTime s))\<rparr>"

definition RRRun :: "Process list \<Rightarrow> RRState option" where
  "RRRun processes = RRLoop (RRInit processes)"

definition RRSchedule :: "Process list \<Rightarrow> Report option" where
  "RRSchedule processes = map_option RRReport (RRRun processes)"

section \<open>What the caller sees afterwards\<close>

text \<open>
  \<open>shiftedFrom old new\<close>: the array \<open>new\<close> has the length of \<open>old\<close>, and each of its
  cells holds what \<open>old\<close> held in the same cell or in a later one. This is what repeated
  removal in place leaves of the caller's slice.
\<close>

definition shiftedFrom :: "Process list \<Rightarrow> Process list \<Rightarrow> bool" where
  "shiftedFrom old new =
     (length new = length old \<and>
      (\<forall>k < length old. \<exists>j. k \<le> j \<and> j < length old \<and> new ! k = old ! j))"

section \<open>Invariants and measures of the loops\<close>

subsection \<open>Shortest job first\<close>

text \<open>
  What is needed for the loop of \<^verbatim>\<open>SJFSchedule\<close> to end: the local slice lies inside its
  array, and the processes still in it have a positive burst (a process with a burst of
  0 or less is never admitted and never removed).
\<close>

definition SJFOk :: "SJFState \<Rightarrow> bool" where
  "SJFOk s =
     (sLen s \<le> length (sProcesses s) \<and>
      (\<forall>p\<in>set (take (sLen s) (sProcesses s)). 0 < BurstDuration p))"

text \<open>The time units the processes still in the slice have yet to wait for their arrival.\<close>

definition SJFWaiting :: "SJFState \<Rightarrow> nat" where
  "SJFWaiting s =
     sum_list (map (\<lambda>p. nat (ArrivalTime p - sCurrentTime s)) (take (sLen s) (sProcesses s)))"

text \<open>
  A row of \<^verbatim>\<open>SJFSchedule\<close> holds the process it was written for: the ID, the priority and
  the arrival as they are, and the burst as the Burst column less the Wait column (the
  Burst column is written as \<^verbatim>\<open>p.BurstDuration + waitTime\<close>). The slice written with the
  row runs from arrival plus wait to the exit.
\<close>

definition procOfRow :: "ScheduleRow \<Rightarrow> Process" where
  "procOfRow r =
     \<lparr>ProcessID = rowID r, ArrivalTime = rowArrival r,
      BurstDuration = rowBurst r - rowWait r, Priority = rowPriority r\<rparr>"

definition sliceOfRow :: "ScheduleRow \<Rightarrow> TimeSlice" where
  "sliceOfRow r = \<lparr>PID = rowID r, Start = rowArrival r + rowWait r, Stop = rowExit r\<rparr>"

definition rowOK :: "ScheduleRow \<Rightarrow> bool" where
  "rowOK r =
     (0 \<le> rowWait r \<and> rowExit r = rowArrival r + rowBurst r \<and>
      rowTurnaround r = rowExit r - rowArrival r)"

text \<open>
  \<open>SJFBefore r1 r2\<close>: the process of \<open>r1\<close> has left the processor when that of \<open>r2\<close>
  starts, and if the process of \<open>r2\<close> had arrived when that of \<open>r1\<close> was selected, it
  does not come before it in the order of the ready set.
\<close>

definition SJFBefore :: "ScheduleRow \<Rightarrow> ScheduleRow \<Rightarrow> bool" where
  "SJFBefore r1 r2 =
     (rowExit r1 \<le> rowArrival r2 + rowWait r2 \<and>
      (rowArrival r2 \<le> rowArrival r1 + rowWait r1 \<longrightarrow> \<not> Less (procOfRow r2) (procOfRow r1)))"

text \<open>The invariant of the loop of \<^verbatim>\<open>SJFSchedule\<close> run on the process set \<open>P\<close>.\<close>

definition SJFInv :: "Process list \<Rightarrow> SJFState \<Rightarrow> bool" where
  "SJFInv P s =
     ((\<forall>p\<in>set (sHeap s). ArrivalTime p \<le> sCurrentTime s \<and> 0 < BurstDuration p) \<and>
      mset (map procOfRow (sSchedule s)) + mset (sHeap s) +
        mset (take (sLen s) (sProcesses s)) = mset P \<and>
      sGantt s = map sliceOfRow (sSchedule s) \<and>
      (\<forall>r\<in>set (sSchedule s).
         rowOK r \<and> rowExit r \<le> sCurrentTime s \<and>
         (\<forall>q\<in>set (sHeap s) \<union> set (take (sLen s) (sProcesses s)).
            ArrivalTime q \<le> rowArrival r + rowWait r \<longrightarrow> \<not> Less q (procOfRow r))) \<and>
      sorted_wrt SJFBefore (sSchedule s))"

text \<open>
  The loops of \<^verbatim>\<open>FCFSSchedule\<close> and \<^verbatim>\<open>SJFSchedule\<close> are modelled on unbounded integers;
  the program computes on \<^verbatim>\<open>int64\<close>, whose operations wrap around. The two agree as long as
  every value computed lies in the range of \<^verbatim>\<open>int64\<close>. \<open>horizon\<close> bounds the clock of a
  run from above: the latest arrival plus all bursts.
\<close>

definition int64 :: "int \<Rightarrow> bool" where
  "int64 x = (- (2 ^ 63) \<le> x \<and> x < 2 ^ 63)"

fun maxArrival :: "Process list \<Rightarrow> int" where
  "maxArrival [] = 0"
| "maxArrival (p # ps) = max (ArrivalTime p) (maxArrival ps)"

definition horizon :: "Process list \<Rightarrow> int" where
  "horizon ps = maxArrival ps + sum_list (map BurstDuration ps)"

text \<open>
  What bounds the clock of \<^verbatim>\<open>SJFSchedule\<close> run on the set \<open>P\<close>: the clock plus the bursts
  still to be served stays below the horizon of \<open>P\<close>.
\<close>

definition SJFBound :: "Process list \<Rightarrow> SJFState \<Rightarrow> bool" where
  "SJFBound P s =
     ((\<forall>p\<in>set (sHeap s @ take (sLen s) (sProcesses s)).
         0 \<le> ArrivalTime p \<and> 0 < BurstDuration p \<and> ArrivalTime p \<le> maxArrival P) \<and>
      0 \<le> sCurrentTime s \<and>
      sCurrentTime s + sum_list (map BurstDuration (sHeap s @ take (sLen s) (sProcesses s)))
        \<le> horizon P \<and>
      sum_list (map BurstDuration (sHeap s @ take (sLen s) (sProcesses s)))
        \<le> sum_list (map BurstDuration P) \<and>
      (\<forall>r\<in>set (sSchedule s). 0 \<le> rowArrival r \<and> rowArrival r + rowWait r \<le> rowExit r))"

subsection \<open>Sums of slice durations\<close>

text \<open>The processor time the timeline gives to a process ID.\<close>

definition sliceTime :: "int \<Rightarrow> TimeSlice list \<Rightarrow> int" where
  "sliceTime pid g = sum_list (map (\<lambda>sl. Stop sl - Start sl) (filter (\<lambda>sl. PID sl = pid) g))"

text \<open>The bursts of the processes of a set that carry a process ID, summed.\<close>

definition burstOf :: "int \<Rightarrow> Process list \<Rightarrow> int" where
  "burstOf pid ps = sum_list (map BurstDuration (filter (\<lambda>p. ProcessID p = pid) ps))"

subsection \<open>Round robin\<close>

text \<open>
  Two measures for the loop of \<^verbatim>\<open>RRSchedule\<close>: the work left in the queue and the slice (one
  more than the remaining burst per process), and the time the processes still in the
  slice have yet to wait for their arrival.
\<close>

definition RRWork :: "RRState \<Rightarrow> nat" where
  "RRWork s =
     sum_list (map (\<lambda>p. nat (BurstDuration p) + 1) (rQueue s @ take (rLen s) (rProcesses s)))"

definition RRWaiting :: "RRState \<Rightarrow> nat" where
  "RRWaiting s =
     sum_list (map (\<lambda>p. nat (ArrivalTime p - rCurrentTime s)) (take (rLen s) (rProcesses s)))"


section \<open>Removal in place and admission\<close>


lemma length_removeAt: "i < n \<Longrightarrow> n \<le> length arr \<Longrightarrow> length (removeAt arr n i) = length arr"
  by (simp add: removeAt_def)

lemma take_removeAt:
  "i < n \<Longrightarrow> n \<le> length arr \<Longrightarrow> take (n - 1) (removeAt arr n i) = take i arr @ drop (i + 1) (take n arr)"
  by (simp add: removeAt_def)

lemma set_removeAt: "set (removeAt arr n i) \<subseteq> set arr"
  by (auto simp: removeAt_def dest: in_set_takeD in_set_dropD)

lemma nth_removeAt:
  "i < n \<Longrightarrow> n \<le> length arr \<Longrightarrow> k < length arr \<Longrightarrow>
   removeAt arr n i ! k = (if i \<le> k \<and> k < n - 1 then arr ! (k + 1) else arr ! k)"
  by (auto simp: removeAt_def nth_append)

lemma admit_spec:
  "n \<le> length arr \<Longrightarrow> i \<le> n \<Longrightarrow> admit ready arr n i q = (arr', n', q') \<Longrightarrow>
   take n' arr' = take i arr @ filter (\<lambda>p. \<not> ready p) (drop i (take n arr)) \<and>
   q' = q @ filter ready (drop i (take n arr)) \<and>
   length arr' = length arr \<and> n' \<le> length arr'"
proof (induction ready arr n i q rule: admit.induct)
  case (1 ready arr n i q)
  show ?case
  proof (cases "i < n")
    case False
    with "1.prems" show ?thesis by (simp add: admit.simps)
  next
    case True
    note lt = this
    have dr: "drop i (take n arr) = arr ! i # drop (i + 1) (take n arr)"
      using Cons_nth_drop_Suc[of i "take n arr"] lt "1.prems"(1) by simp
    show ?thesis
    proof (cases "ready (arr ! i)")
      case True
      have eq: "admit ready (removeAt arr n i) (n - 1) i (q @ [arr ! i]) = (arr', n', q')"
        using "1.prems"(3) lt True by (simp add: admit.simps)
      have a: "n - 1 \<le> length (removeAt arr n i)" using lt "1.prems"(1) by (simp add: length_removeAt)
      have b: "i \<le> n - 1" using lt by simp
      note ih = "1.IH"(1)[OF lt True a b eq]
      have t1: "take i (removeAt arr n i) = take i arr"
        using lt "1.prems"(1) by (simp add: removeAt_def)
      have t2: "drop i (take (n - Suc 0) (removeAt arr n i)) = drop (Suc i) (take n arr)"
        using take_removeAt[OF lt "1.prems"(1)] lt "1.prems"(1) by simp
      show ?thesis using ih True lt "1.prems"(1) by (simp add: t1 t2 dr length_removeAt)
    next
      case False
      have eq: "admit ready arr n (i + 1) q = (arr', n', q')"
        using "1.prems"(3) lt False by (simp add: admit.simps)
      have b: "i + 1 \<le> n" using lt by simp
      note ih = "1.IH"(2)[OF lt False "1.prems"(1) b eq]
      have t: "take (Suc i) arr = take i arr @ [arr ! i]"
        using lt "1.prems"(1) by (simp add: take_Suc_conv_app_nth)
      show ?thesis using ih False by (simp add: dr t)
    qed
  qed
qed

lemma admit_set:
  "n \<le> length arr \<Longrightarrow> admit ready arr n i q = (arr', n', q') \<Longrightarrow> set arr' \<subseteq> set arr"
proof (induction ready arr n i q rule: admit.induct)
  case (1 ready arr n i q)
  show ?case
  proof (cases "i < n")
    case False
    with "1.prems" show ?thesis by (simp add: admit.simps)
  next
    case True
    note lt = this
    show ?thesis
    proof (cases "ready (arr ! i)")
      case True
      have eq: "admit ready (removeAt arr n i) (n - 1) i (q @ [arr ! i]) = (arr', n', q')"
        using "1.prems"(2) lt True by (simp add: admit.simps)
      have a: "n - 1 \<le> length (removeAt arr n i)" using lt "1.prems"(1) by (simp add: length_removeAt)
      from "1.IH"(1)[OF lt True a eq] set_removeAt[of arr n i] show ?thesis by blast
    next
      case False
      have eq: "admit ready arr n (i + 1) q = (arr', n', q')"
        using "1.prems"(2) lt False by (simp add: admit.simps)
      from "1.IH"(2)[OF lt False "1.prems"(1) eq] show ?thesis .
    qed
  qed
qed

lemma shiftedFrom_refl: "shiftedFrom a a"
  by (auto simp: shiftedFrom_def)

lemma shiftedFrom_trans: "shiftedFrom a b \<Longrightarrow> shiftedFrom b c \<Longrightarrow> shiftedFrom a c"
  unfolding shiftedFrom_def
  by (metis le_trans)

lemma shiftedFrom_removeAt: "i < n \<Longrightarrow> n \<le> length arr \<Longrightarrow> shiftedFrom arr (removeAt arr n i)"
  unfolding shiftedFrom_def
proof (intro conjI allI impI)
  show "i < n \<Longrightarrow> n \<le> length arr \<Longrightarrow> length (removeAt arr n i) = length arr"
    by (rule length_removeAt)
next
  fix k assume a: "i < n" "n \<le> length arr" "k < length arr"
  show "\<exists>j\<ge>k. j < length arr \<and> removeAt arr n i ! k = arr ! j"
  proof (cases "i \<le> k \<and> k < n - 1")
    case True
    then have "removeAt arr n i ! k = arr ! (k + 1)" using a by (simp add: nth_removeAt)
    moreover have "k + 1 < length arr" using True a by linarith
    ultimately show ?thesis by (intro exI[of _ "k + 1"]) simp
  next
    case False
    then have "removeAt arr n i ! k = arr ! k" using nth_removeAt[OF a] by auto
    then show ?thesis using a by (intro exI[of _ k]) simp
  qed
qed

lemma admit_shifted:
  "n \<le> length arr \<Longrightarrow> admit ready arr n i q = (arr', n', q') \<Longrightarrow> shiftedFrom arr arr'"
proof (induction ready arr n i q rule: admit.induct)
  case (1 ready arr n i q)
  show ?case
  proof (cases "i < n")
    case False
    with "1.prems" show ?thesis by (simp add: admit.simps shiftedFrom_refl)
  next
    case True
    note lt = this
    show ?thesis
    proof (cases "ready (arr ! i)")
      case True
      have eq: "admit ready (removeAt arr n i) (n - 1) i (q @ [arr ! i]) = (arr', n', q')"
        using "1.prems"(2) lt True by (simp add: admit.simps)
      have a: "n - 1 \<le> length (removeAt arr n i)" using lt "1.prems"(1) by (simp add: length_removeAt)
      from "1.IH"(1)[OF lt True a eq] shiftedFrom_removeAt[OF lt "1.prems"(1)]
      show ?thesis by (blast intro: shiftedFrom_trans)
    next
      case False
      have eq: "admit ready arr n (i + 1) q = (arr', n', q')"
        using "1.prems"(2) lt False by (simp add: admit.simps)
      from "1.IH"(2)[OF lt False "1.prems"(1) eq] show ?thesis .
    qed
  qed
qed

lemma Less_irrefl: "\<not> Less p p"
  by (simp add: Less_def)

lemma Less_trans: "Less p q \<Longrightarrow> Less q r \<Longrightarrow> Less p r"
  unfolding Less_def by (elim disjE conjE) simp_all

lemma heapMin_in: "heapMin m xs \<in> set (m # xs)"
  by (induction xs arbitrary: m) (auto split: if_splits)

lemma heapMin_least_aux:
  "\<forall>q\<in>S. \<not> Less q m \<Longrightarrow> \<not> Less m m \<Longrightarrow> \<forall>q\<in>S \<union> set xs. \<not> Less q (heapMin m xs)"
proof (induction xs arbitrary: m S)
  case Nil
  then show ?case by simp
next
  case (Cons x xs)
  let ?m = "if Less x m then x else m"
  have "\<forall>q\<in>insert x S. \<not> Less q ?m"
    using Cons.prems by (auto dest: Less_trans simp: Less_irrefl)
  from Cons.IH[OF this] show ?case by (simp add: Less_irrefl)
qed

lemma heapMin_least: "q \<in> set (m # xs) \<Longrightarrow> \<not> Less q (heapMin m xs)"
  using heapMin_least_aux[of "{m}" m xs] by (auto simp: Less_irrefl)

section \<open>Loop rules\<close>


lemma SJFLoop_invariant:
  assumes run: "SJFLoop s = Some s'" and init: "I s"
    and step: "\<And>s. I s \<Longrightarrow> sHeap s \<noteq> [] \<or> 0 < sLen s \<Longrightarrow> I (SJFBody s)"
  shows "I s' \<and> sHeap s' = [] \<and> sLen s' = 0"
proof -
  have "I s \<longrightarrow> I s' \<and> sHeap s' = [] \<and> sLen s' = 0"
  proof (rule SJFLoop.raw_induct
      [where P = "\<lambda>s s'. I s \<longrightarrow> I s' \<and> sHeap s' = [] \<and> sLen s' = 0", OF _ run])
    fix loop s s'
    assume IH: "\<And>x y. loop x = Some y \<Longrightarrow> I x \<longrightarrow> I y \<and> sHeap y = [] \<and> sLen y = 0"
      and eq: "(if sHeap s \<noteq> [] \<or> 0 < sLen s then loop (SJFBody s) else Some s) = Some s'"
    show "I s \<longrightarrow> I s' \<and> sHeap s' = [] \<and> sLen s' = 0"
    proof (cases "sHeap s \<noteq> [] \<or> 0 < sLen s")
      case True
      have l: "loop (SJFBody s) = Some s'"
        using eq True by (simp only: if_True)
      show ?thesis
      proof
        assume "I s"
        then have "I (SJFBody s)" using True by (rule step)
        with IH[OF l] show "I s' \<and> sHeap s' = [] \<and> sLen s' = 0" by (rule mp)
      qed
    next
      case False
      have "Some s = Some s'"
        using eq False by (simp only: if_False)
      then have "s' = s" by simp
      with False show ?thesis by simp
    qed
  qed
  with init show ?thesis by (rule mp[rotated])
qed

lemma RRLoop_invariant:
  assumes run: "RRLoop s = Some s'" and init: "I s"
    and step: "\<And>s. I s \<Longrightarrow> rQueue s \<noteq> [] \<or> 0 < rLen s \<Longrightarrow> I (RRBody s)"
  shows "I s' \<and> rQueue s' = [] \<and> rLen s' = 0"
proof -
  have "I s \<longrightarrow> I s' \<and> rQueue s' = [] \<and> rLen s' = 0"
  proof (rule RRLoop.raw_induct
      [where P = "\<lambda>s s'. I s \<longrightarrow> I s' \<and> rQueue s' = [] \<and> rLen s' = 0", OF _ run])
    fix loop s s'
    assume IH: "\<And>x y. loop x = Some y \<Longrightarrow> I x \<longrightarrow> I y \<and> rQueue y = [] \<and> rLen y = 0"
      and eq: "(if rQueue s \<noteq> [] \<or> 0 < rLen s then loop (RRBody s) else Some s) = Some s'"
    show "I s \<longrightarrow> I s' \<and> rQueue s' = [] \<and> rLen s' = 0"
    proof (cases "rQueue s \<noteq> [] \<or> 0 < rLen s")
      case True
      have l: "loop (RRBody s) = Some s'"
        using eq True by (simp only: if_True)
      show ?thesis
      proof
        assume "I s"
        then have "I (RRBody s)" using True by (rule step)
        with IH[OF l] show "I s' \<and> rQueue s' = [] \<and> rLen s' = 0" by (rule mp)
      qed
    next
      case False
      have "Some s = Some s'"
        using eq False by (simp only: if_False)
      then have "s' = s" by simp
      with False show ?thesis by simp
    qed
  qed
  with init show ?thesis by (rule mp[rotated])
qed

lemma SJFBody_cases:
  assumes len: "sLen s \<le> length (sProcesses s)"
  obtains (idle) arr' where
      "sHeap s = []"
      "filter (SJFReady (sCurrentTime s)) (take (sLen s) (sProcesses s)) = []"
      "take (sLen s) arr' = take (sLen s) (sProcesses s)"
      "length arr' = length (sProcesses s)"
      "shiftedFrom (sProcesses s) arr'"
      "SJFBody s = s\<lparr>sProcesses := arr', sCurrentTime := sCurrentTime s + 1\<rparr>"
  | (serve) arr' n' h p where
      "h = sHeap s @ filter (SJFReady (sCurrentTime s)) (take (sLen s) (sProcesses s))"
      "p \<in> set h" "\<forall>q\<in>set h. \<not> Less q p"
      "take n' arr' = filter (\<lambda>p. \<not> SJFReady (sCurrentTime s) p) (take (sLen s) (sProcesses s))"
      "n' \<le> length arr'"
      "length arr' = length (sProcesses s)"
      "shiftedFrom (sProcesses s) arr'"
      "SJFBody s = SJFServe (s\<lparr>sProcesses := arr', sLen := n', sHeap := h\<rparr>) p (remove1 p h)"
proof -
  obtain arr' n' h where ad:
    "admit (SJFReady (sCurrentTime s)) (sProcesses s) (sLen s) 0 (sHeap s) = (arr', n', h)"
    by (metis prod_cases3)
  from admit_spec[OF len _ ad] have sp:
    "take n' arr' = filter (\<lambda>p. \<not> SJFReady (sCurrentTime s) p) (take (sLen s) (sProcesses s))"
    "h = sHeap s @ filter (SJFReady (sCurrentTime s)) (take (sLen s) (sProcesses s))"
    "length arr' = length (sProcesses s)" "n' \<le> length arr'"
    by simp_all
  have sh: "shiftedFrom (sProcesses s) arr'" by (rule admit_shifted[OF len ad])
  show thesis
  proof (cases h)
    case Nil
    with sp(2) have e: "sHeap s = []"
      "filter (SJFReady (sCurrentTime s)) (take (sLen s) (sProcesses s)) = []" by simp_all
    from e(2) have "filter (\<lambda>p. \<not> SJFReady (sCurrentTime s) p) (take (sLen s) (sProcesses s))
        = take (sLen s) (sProcesses s)"
      by (simp add: filter_empty_conv)
    with sp(1) have t: "take n' arr' = take (sLen s) (sProcesses s)" by simp
    then have "length (take n' arr') = length (take (sLen s) (sProcesses s))" by simp
    with sp(4) len have n: "n' = sLen s" by simp
    have b: "SJFBody s = s\<lparr>sProcesses := arr', sCurrentTime := sCurrentTime s + 1\<rparr>"
      using ad Nil n e(1) by (simp add: SJFBody_def)
    have t': "take (sLen s) arr' = take (sLen s) (sProcesses s)" using t n by simp
    show thesis by (rule idle[OF e(1) e(2) t' sp(3) sh b])
  next
    case (Cons x xs)
    let ?p = "heapMin x xs"
    have m1: "?p \<in> set h" using heapMin_in[of x xs] Cons by simp
    have m2: "\<forall>q\<in>set h. \<not> Less q ?p" using heapMin_least[of _ x xs] Cons by simp
    have b: "SJFBody s = SJFServe (s\<lparr>sProcesses := arr', sLen := n', sHeap := h\<rparr>) ?p (remove1 ?p h)"
      using ad Cons by (simp add: SJFBody_def Let_def)
    show thesis by (rule serve[OF sp(2) m1 m2 sp(1) sp(4) sp(3) sh b])
  qed
qed

section \<open>The loop of shortest job first\<close>

lemma SJFServe_fields:
  "sProcesses (SJFServe s p h) = sProcesses s"
  "sLen (SJFServe s p h) = sLen s"
  "sHeap (SJFServe s p h) = h"
  "sCurrentTime (SJFServe s p h) = sCurrentTime s + BurstDuration p"
  "sSchedule (SJFServe s p h) = sSchedule s @
     [\<lparr>rowID = ProcessID p, rowPriority = Priority p,
       rowBurst = BurstDuration p + (sCurrentTime s - ArrivalTime p), rowArrival = ArrivalTime p,
       rowWait = sCurrentTime s - ArrivalTime p,
       rowTurnaround = sCurrentTime s + BurstDuration p - ArrivalTime p,
       rowExit = sCurrentTime s + BurstDuration p\<rparr>]"
  "sGantt (SJFServe s p h) = sGantt s @
     [\<lparr>PID = ProcessID p, Start = sCurrentTime s, Stop = sCurrentTime s + BurstDuration p\<rparr>]"
  by (simp_all add: SJFServe_def Let_def)

lemma SJFBody_Ok:
  assumes "SJFOk s"
  shows "SJFOk (SJFBody s)"
proof -
  from assms have len: "sLen s \<le> length (sProcesses s)"
    and pos: "\<forall>p\<in>set (take (sLen s) (sProcesses s)). 0 < BurstDuration p"
    by (simp_all add: SJFOk_def)
  from len show ?thesis
  proof (cases rule: SJFBody_cases)
    case (idle arr')
    then show ?thesis using len pos by (simp add: SJFOk_def)
  next
    case (serve arr' n' h p)
    have "set (take n' arr') \<subseteq> set (take (sLen s) (sProcesses s))"
      unfolding serve(4) by auto
    then show ?thesis using pos serve(5) by (auto simp: SJFOk_def serve(8) SJFServe_fields)
  qed
qed

lemma SJFBody_decreases:
  assumes ok: "SJFOk s" and c: "sHeap s \<noteq> [] \<or> 0 < sLen s"
  shows "(SJFBody s, s) \<in> measures [\<lambda>s. length (sHeap s) + sLen s, SJFWaiting]"
proof -
  from ok have len: "sLen s \<le> length (sProcesses s)"
    and pos: "\<forall>p\<in>set (take (sLen s) (sProcesses s)). 0 < BurstDuration p"
    by (simp_all add: SJFOk_def)
  let ?L = "take (sLen s) (sProcesses s)"
  let ?t = "sCurrentTime s"
  from len show ?thesis
  proof (cases rule: SJFBody_cases)
    case (idle arr')
    from idle(1) c have ne: "?L \<noteq> []" using len by auto
    have late: "\<And>p. p \<in> set ?L \<Longrightarrow> ?t < ArrivalTime p"
    proof -
      fix p assume p: "p \<in> set ?L"
      with idle(2) have "\<not> SJFReady ?t p" by (simp add: filter_empty_conv)
      with pos p show "?t < ArrivalTime p" by (auto simp: SJFReady_def)
    qed
    have "sum_list (map (\<lambda>p. nat (ArrivalTime p - (?t + 1))) ?L)
        < sum_list (map (\<lambda>p. nat (ArrivalTime p - ?t)) ?L)"
      using ne
    proof (rule sum_list_strict_mono)
      fix p assume "p \<in> set ?L"
      from late[OF this] show "nat (ArrivalTime p - (?t + 1)) < nat (ArrivalTime p - ?t)" by simp
    qed
    then have "SJFWaiting (SJFBody s) < SJFWaiting s"
      by (simp add: SJFWaiting_def idle(6) idle(3))
    moreover have "length (sHeap (SJFBody s)) + sLen (SJFBody s) = length (sHeap s) + sLen s"
      by (simp add: idle(6))
    ultimately show ?thesis by simp
  next
    case (serve arr' n' h p)
    let ?R = "filter (SJFReady ?t) ?L"
    let ?W = "filter (\<lambda>p. \<not> SJFReady ?t p) ?L"
    have "length (take n' arr') = length ?W" by (simp only: serve(4))
    with serve(5) have n': "n' = length ?W" by simp
    have "length ?R + length ?W = length ?L" by (rule sum_length_filter_compl)
    with len have rw: "length ?R + length ?W = sLen s" by simp
    have "length h = length (sHeap s) + length ?R" by (simp add: serve(1))
    moreover have "length (remove1 p h) = length h - 1" using serve(2) by (simp add: length_remove1)
    moreover have "0 < length h" using serve(2) by (cases h) auto
    ultimately have "length (remove1 p h) + n' < length (sHeap s) + sLen s"
      using n' rw by linarith
    then show ?thesis by (simp add: serve(8) SJFServe_fields)
  qed
qed

lemma SJFLoop_terminates:
  assumes "SJFOk s"
  shows "\<exists>s'. SJFLoop s = Some s'"
proof -
  have "wf (measures [\<lambda>s. length (sHeap s) + sLen s, SJFWaiting])" by simp
  then show ?thesis using assms
  proof (induction s rule: wf_induct_rule)
    case (less s)
    show ?case
    proof (cases "sHeap s \<noteq> [] \<or> 0 < sLen s")
      case True
      from SJFBody_decreases[OF less.prems True] SJFBody_Ok[OF less.prems]
      have "\<exists>s'. SJFLoop (SJFBody s) = Some s'" by (rule less.IH)
      moreover have "SJFLoop s = SJFLoop (SJFBody s)"
        using True by (subst SJFLoop.simps) (simp only: if_True)
      ultimately show ?thesis by simp
    next
      case False
      then have "SJFLoop s = Some s" by (subst SJFLoop.simps) (simp only: if_False)
      then show ?thesis by blast
    qed
  qed
qed

lemma SJFInit_Ok: "valid processes \<Longrightarrow> SJFOk (SJFInit processes)"
  by (auto simp: SJFOk_def SJFInit_def valid_def list_all_iff)


lemma SJFInv_idle:
  assumes inv: "SJFInv P s" and h: "sHeap s = []"
    and t: "take (sLen s) arr' = take (sLen s) (sProcesses s)"
  shows "SJFInv P (s\<lparr>sProcesses := arr', sCurrentTime := sCurrentTime s + 1\<rparr>)"
proof -
  have "\<And>r. rowExit r \<le> sCurrentTime s \<Longrightarrow> rowExit r \<le> sCurrentTime s + 1" by simp
  then show ?thesis
    using inv h unfolding SJFInv_def by (simp add: t) blast
qed

lemma SJFInv_serve:
  fixes s :: SJFState and p :: Process
  defines "t \<equiv> sCurrentTime s"
  defines "L \<equiv> take (sLen s) (sProcesses s)"
  assumes ok: "SJFOk s" and inv: "SJFInv P s"
    and h: "h = sHeap s @ filter (SJFReady t) L"
    and pin: "p \<in> set h" and pmin: "\<forall>q\<in>set h. \<not> Less q p"
    and w: "take n' arr' = filter (\<lambda>p. \<not> SJFReady t p) L"
  shows "SJFInv P (SJFServe (s\<lparr>sProcesses := arr', sLen := n', sHeap := h\<rparr>) p (remove1 p h))"
proof -
  let ?row = "\<lparr>rowID = ProcessID p, rowPriority = Priority p,
       rowBurst = BurstDuration p + (t - ArrivalTime p), rowArrival = ArrivalTime p,
       rowWait = t - ArrivalTime p,
       rowTurnaround = t + BurstDuration p - ArrivalTime p,
       rowExit = t + BurstDuration p\<rparr>"
  let ?s' = "SJFServe (s\<lparr>sProcesses := arr', sLen := n', sHeap := h\<rparr>) p (remove1 p h)"
  let ?W = "filter (\<lambda>p. \<not> SJFReady t p) L"
  from ok have pos: "\<forall>p\<in>set L. 0 < BurstDuration p"
    by (simp add: SJFOk_def L_def)
  from inv have
    i1: "\<forall>p\<in>set (sHeap s). ArrivalTime p \<le> t \<and> 0 < BurstDuration p" and
    i2: "mset (map procOfRow (sSchedule s)) + mset (sHeap s) + mset L = mset P" and
    i3: "sGantt s = map sliceOfRow (sSchedule s)" and
    i4: "\<forall>r\<in>set (sSchedule s). rowOK r \<and> rowExit r \<le> t \<and>
         (\<forall>q\<in>set (sHeap s) \<union> set L.
            ArrivalTime q \<le> rowArrival r + rowWait r \<longrightarrow> \<not> Less q (procOfRow r))" and
    i5: "sorted_wrt SJFBefore (sSchedule s)"
    unfolding SJFInv_def t_def L_def by blast+
  have hready: "\<forall>q\<in>set h. ArrivalTime q \<le> t \<and> 0 < BurstDuration q"
    using i1 by (auto simp: h SJFReady_def)
  have hsub: "set h \<subseteq> set (sHeap s) \<union> set L" by (auto simp: h)
  have pa: "ArrivalTime p \<le> t" and pb: "0 < BurstDuration p" using hready pin by auto
  have ppend: "p \<in> set (sHeap s) \<union> set L" using hsub pin by auto
  have prow: "procOfRow ?row = p" by (simp add: procOfRow_def)
  have srow: "sliceOfRow ?row = \<lparr>PID = ProcessID p, Start = t, Stop = t + BurstDuration p\<rparr>"
    by (simp add: sliceOfRow_def)
  have wlate: "\<forall>q\<in>set ?W. t < ArrivalTime q"
    using pos by (auto simp: SJFReady_def)
  have sub': "set (remove1 p h) \<union> set ?W \<subseteq> set (sHeap s) \<union> set L"
    using hsub set_remove1_subset[of p h] by auto
  have f: "sHeap ?s' = remove1 p h" "sLen ?s' = n'" "sProcesses ?s' = arr'"
    "sCurrentTime ?s' = t + BurstDuration p" "sSchedule ?s' = sSchedule s @ [?row]"
    "sGantt ?s' = sGantt s @ [\<lparr>PID = ProcessID p, Start = t, Stop = t + BurstDuration p\<rparr>]"
    by (simp_all add: SJFServe_fields t_def)
  have c1: "\<forall>q\<in>set (remove1 p h). ArrivalTime q \<le> t + BurstDuration p \<and> 0 < BurstDuration q"
  proof
    fix q assume "q \<in> set (remove1 p h)"
    then have "q \<in> set h" using set_remove1_subset[of p h] by auto
    with hready pb show "ArrivalTime q \<le> t + BurstDuration p \<and> 0 < BurstDuration q" by fastforce
  qed
  have part: "mset (filter (SJFReady t) L) + mset ?W = mset L"
    using multiset_partition[of "mset L" "SJFReady t"] by simp
  have hw: "mset h + mset ?W = mset (sHeap s) + mset L"
    unfolding h using part by (simp add: add.assoc)
  have ph: "{#p#} + mset (remove1 p h) = mset h" using pin by simp
  have "mset (map procOfRow (sSchedule s @ [?row])) + mset (remove1 p h) + mset ?W
      = mset (map procOfRow (sSchedule s)) + (({#p#} + mset (remove1 p h)) + mset ?W)"
    unfolding map_append mset_append list.map prow by (simp only: mset.simps ac_simps)
  also have "\<dots> = mset (map procOfRow (sSchedule s)) + (mset (sHeap s) + mset L)"
    by (simp only: ph hw)
  also have "\<dots> = mset P" using i2 by (simp only: add.assoc)
  finally have c2: "mset (map procOfRow (sSchedule s @ [?row])) + mset (remove1 p h) + mset ?W = mset P" .
  have c3: "sGantt s @ [\<lparr>PID = ProcessID p, Start = t, Stop = t + BurstDuration p\<rparr>]
      = map sliceOfRow (sSchedule s @ [?row])"
    using i3 srow by simp
  have c4old: "\<forall>r\<in>set (sSchedule s). rowOK r \<and> rowExit r \<le> t + BurstDuration p \<and>
         (\<forall>q\<in>set (remove1 p h) \<union> set ?W.
            ArrivalTime q \<le> rowArrival r + rowWait r \<longrightarrow> \<not> Less q (procOfRow r))"
  proof
    fix r assume r: "r \<in> set (sSchedule s)"
    with i4 have a: "rowOK r" "rowExit r \<le> t"
      "\<forall>q\<in>set (sHeap s) \<union> set L.
            ArrivalTime q \<le> rowArrival r + rowWait r \<longrightarrow> \<not> Less q (procOfRow r)" by blast+
    from a(3) sub' have "\<forall>q\<in>set (remove1 p h) \<union> set ?W.
            ArrivalTime q \<le> rowArrival r + rowWait r \<longrightarrow> \<not> Less q (procOfRow r)" by blast
    with a(1,2) pb show "rowOK r \<and> rowExit r \<le> t + BurstDuration p \<and>
         (\<forall>q\<in>set (remove1 p h) \<union> set ?W.
            ArrivalTime q \<le> rowArrival r + rowWait r \<longrightarrow> \<not> Less q (procOfRow r))" by simp
  qed
  have c4new: "rowOK ?row \<and> rowExit ?row \<le> t + BurstDuration p \<and>
         (\<forall>q\<in>set (remove1 p h) \<union> set ?W.
            ArrivalTime q \<le> rowArrival ?row + rowWait ?row \<longrightarrow> \<not> Less q (procOfRow ?row))"
  proof (intro conjI ballI impI)
    show "rowOK ?row" using pa by (simp add: rowOK_def)
    show "rowExit ?row \<le> t + BurstDuration p" by simp
  next
    fix q assume q: "q \<in> set (remove1 p h) \<union> set ?W"
      and "ArrivalTime q \<le> rowArrival ?row + rowWait ?row"
    then have qa: "ArrivalTime q \<le> t" by simp
    with wlate q have "q \<in> set (remove1 p h)" by fastforce
    then have "q \<in> set h" using set_remove1_subset[of p h] by auto
    with pmin show "\<not> Less q (procOfRow ?row)" unfolding prow by blast
  qed
  have c5: "sorted_wrt SJFBefore (sSchedule s @ [?row])"
  proof -
    have "\<forall>r\<in>set (sSchedule s). SJFBefore r ?row"
    proof
      fix r assume "r \<in> set (sSchedule s)"
      with i4 ppend have "rowExit r \<le> t"
        "ArrivalTime p \<le> rowArrival r + rowWait r \<longrightarrow> \<not> Less p (procOfRow r)" by blast+
      then show "SJFBefore r ?row" unfolding SJFBefore_def prow by simp
    qed
    with i5 show ?thesis by (simp add: sorted_wrt_append)
  qed
  show ?thesis
    unfolding SJFInv_def f w[folded L_def t_def] 
    using c1 c2 c3 c4old c4new c5 by (simp add: w)
qed


lemma SJFBody_Inv:
  assumes ok: "SJFOk s" and inv: "SJFInv P s"
  shows "SJFInv P (SJFBody s)"
proof -
  from ok have len: "sLen s \<le> length (sProcesses s)" by (simp add: SJFOk_def)
  from len show ?thesis
  proof (cases rule: SJFBody_cases)
    case (idle arr')
    show ?thesis unfolding idle(6) using inv idle(1) idle(3) by (rule SJFInv_idle)
  next
    case (serve arr' n' h p)
    show ?thesis unfolding serve(8)
      using ok inv serve(1) serve(2) serve(3) serve(4) by (rule SJFInv_serve)
  qed
qed

lemma SJFBody_shifted:
  assumes ok: "SJFOk s" and sh: "shiftedFrom P (sProcesses s)"
  shows "shiftedFrom P (sProcesses (SJFBody s))"
proof -
  from ok have len: "sLen s \<le> length (sProcesses s)" by (simp add: SJFOk_def)
  from len show ?thesis
  proof (cases rule: SJFBody_cases)
    case (idle arr')
    from shiftedFrom_trans[OF sh idle(5)] show ?thesis by (simp add: idle(6))
  next
    case (serve arr' n' h p)
    from shiftedFrom_trans[OF sh serve(7)] show ?thesis by (simp add: serve(8) SJFServe_fields)
  qed
qed

lemma SJFInit_Inv: "SJFInv P (SJFInit P)"
  by (simp add: SJFInv_def SJFInit_def)

lemma SJFRun_result:
  assumes v: "valid P"
  obtains s where "SJFRun P = Some s" "SJFInv P s" "sHeap s = []" "sLen s = 0"
    "shiftedFrom P (sProcesses s)"
proof -
  let ?I = "\<lambda>s. SJFOk s \<and> SJFInv P s \<and> shiftedFrom P (sProcesses s)"
  from SJFLoop_terminates[OF SJFInit_Ok[OF v]]
  obtain s where run: "SJFLoop (SJFInit P) = Some s" by blast
  have init: "?I (SJFInit P)"
    using SJFInit_Ok[OF v] SJFInit_Inv[of P] shiftedFrom_refl[of P]
    by (simp add: SJFInit_def)
  have step: "\<And>s. ?I s \<Longrightarrow> sHeap s \<noteq> [] \<or> 0 < sLen s \<Longrightarrow> ?I (SJFBody s)"
    using SJFBody_Ok SJFBody_Inv SJFBody_shifted by blast
  from SJFLoop_invariant[of "SJFInit P" s ?I, OF run init step]
  have "?I s \<and> sHeap s = [] \<and> sLen s = 0" by blast
  then show thesis using run that by (simp add: SJFRun_def)
qed

lemma SJF_final_rows:
  assumes inv: "SJFInv P s" and e: "sHeap s = []" "sLen s = 0"
  shows "mset (map procOfRow (sSchedule s)) = mset P"
    and "sGantt s = map sliceOfRow (sSchedule s)"
    and "\<forall>r\<in>set (sSchedule s). rowOK r"
    and "sorted_wrt SJFBefore (sSchedule s)"
  using inv e unfolding SJFInv_def by simp_all

section \<open>Sums of slice durations\<close>

lemma burstOf_mset: "mset ps = mset qs \<Longrightarrow> burstOf pid ps = burstOf pid qs"
proof -
  assume e: "mset ps = mset qs"
  have "\<And>xs. burstOf pid xs = sum_mset (image_mset BurstDuration (filter_mset (\<lambda>p. ProcessID p = pid) (mset xs)))"
    unfolding burstOf_def by (simp flip: sum_mset_sum_list)
  with e show ?thesis by simp
qed

lemma burstOf_distinct:
  "distinct (map ProcessID ps) \<Longrightarrow> p \<in> set ps \<Longrightarrow> burstOf (ProcessID p) ps = BurstDuration p"
proof (induction ps)
  case Nil
  then show ?case by simp
next
  case (Cons q ps)
  show ?case
  proof (cases "p = q")
    case True
    have "\<forall>x\<in>set ps. ProcessID x \<noteq> ProcessID q"
      using Cons.prems(1) by (auto simp: image_iff)
    then have "filter (\<lambda>x. ProcessID x = ProcessID q) ps = []"
      by (simp add: filter_empty_conv)
    with True show ?thesis by (simp add: burstOf_def)
  next
    case False
    with Cons.prems have pin: "p \<in> set ps" by simp
    then have "ProcessID q \<noteq> ProcessID p" using Cons.prems(1) by auto
    with Cons.IH[OF _ pin] Cons.prems(1) show ?thesis by (simp add: burstOf_def)
  qed
qed

lemma sliceTime_rows:
  "\<forall>r\<in>set R. rowOK r \<Longrightarrow> sliceTime pid (map sliceOfRow R) = burstOf pid (map procOfRow R)"
  by (induction R) (auto simp: sliceTime_def burstOf_def sliceOfRow_def procOfRow_def rowOK_def)

lemma SJF_sliceTime:
  assumes v: "valid P" and d: "distinct (map ProcessID P)" and p: "p \<in> set P"
  shows "\<exists>r. SJFSchedule P = Some r \<and> sliceTime (ProcessID p) (timeline r) = BurstDuration p"
proof -
  from v obtain s where s: "SJFRun P = Some s" "SJFInv P s" "sHeap s = []" "sLen s = 0"
    by (rule SJFRun_result)
  note f = SJF_final_rows[OF s(2,3,4)]
  have "sliceTime (ProcessID p) (sGantt s) = burstOf (ProcessID p) (map procOfRow (sSchedule s))"
    unfolding f(2) using f(3) by (rule sliceTime_rows)
  also have "\<dots> = burstOf (ProcessID p) P" using f(1) by (rule burstOf_mset)
  also have "\<dots> = BurstDuration p" using d p by (rule burstOf_distinct)
  finally show ?thesis using s(1) by (simp add: SJFSchedule_def SJFReport_def)
qed

section \<open>The loop of round robin\<close>

lemma RRServe_fields:
  "rProcesses (RRServe s p q) = rProcesses s"
  "rLen (RRServe s p q) = rLen s"
  "rQueue (RRServe s p q) =
     (if timeQuantum < BurstDuration p then q @ [p\<lparr>BurstDuration := BurstDuration p - timeQuantum\<rparr>]
      else q)"
  "rCurrentTime (RRServe s p q) =
     (if timeQuantum < BurstDuration p then rCurrentTime s + timeQuantum
      else rCurrentTime s + BurstDuration p)"
  "rTurnaround (RRServe s p q) =
     (if timeQuantum < BurstDuration p then rTurnaround s
      else rTurnaround s + (rCurrentTime s + BurstDuration p - ArrivalTime p))"
  "rTotalWait (RRServe s p q) =
     (if timeQuantum < BurstDuration p then rTotalWait s
      else rTotalWait s + (rCurrentTime s + BurstDuration p - ArrivalTime p - BurstDuration p))"
  by (simp_all add: RRServe_def Let_def)

lemma RRBody_cases:
  assumes len: "rLen s \<le> length (rProcesses s)"
  obtains (idle) arr' where
      "rQueue s = []"
      "filter (RRReady (rCurrentTime s)) (take (rLen s) (rProcesses s)) = []"
      "take (rLen s) arr' = take (rLen s) (rProcesses s)"
      "length arr' = length (rProcesses s)"
      "shiftedFrom (rProcesses s) arr'"
      "RRBody s = s\<lparr>rProcesses := arr', rCurrentTime := rCurrentTime s + 1\<rparr>"
  | (serve) arr' n' p queue where
      "p # queue = rQueue s @ filter (RRReady (rCurrentTime s)) (take (rLen s) (rProcesses s))"
      "take n' arr' = filter (\<lambda>p. \<not> RRReady (rCurrentTime s) p) (take (rLen s) (rProcesses s))"
      "n' \<le> length arr'"
      "length arr' = length (rProcesses s)"
      "shiftedFrom (rProcesses s) arr'"
      "RRBody s = RRServe (s\<lparr>rProcesses := arr', rLen := n', rQueue := p # queue\<rparr>) p queue"
proof -
  obtain arr' n' h where ad:
    "admit (RRReady (rCurrentTime s)) (rProcesses s) (rLen s) 0 (rQueue s) = (arr', n', h)"
    by (metis prod_cases3)
  from admit_spec[OF len _ ad] have sp:
    "take n' arr' = filter (\<lambda>p. \<not> RRReady (rCurrentTime s) p) (take (rLen s) (rProcesses s))"
    "h = rQueue s @ filter (RRReady (rCurrentTime s)) (take (rLen s) (rProcesses s))"
    "length arr' = length (rProcesses s)" "n' \<le> length arr'"
    by simp_all
  have sh: "shiftedFrom (rProcesses s) arr'" by (rule admit_shifted[OF len ad])
  show thesis
  proof (cases h)
    case Nil
    with sp(2) have e: "rQueue s = []"
      "filter (RRReady (rCurrentTime s)) (take (rLen s) (rProcesses s)) = []" by simp_all
    from e(2) have "filter (\<lambda>p. \<not> RRReady (rCurrentTime s) p) (take (rLen s) (rProcesses s))
        = take (rLen s) (rProcesses s)"
      by (simp add: filter_empty_conv)
    with sp(1) have t: "take n' arr' = take (rLen s) (rProcesses s)" by simp
    then have "length (take n' arr') = length (take (rLen s) (rProcesses s))" by simp
    with sp(4) len have n: "n' = rLen s" by simp
    have b: "RRBody s = s\<lparr>rProcesses := arr', rCurrentTime := rCurrentTime s + 1\<rparr>"
      using ad Nil n e(1) by (simp add: RRBody_def)
    have t': "take (rLen s) arr' = take (rLen s) (rProcesses s)" using t n by simp
    show thesis by (rule idle[OF e(1) e(2) t' sp(3) sh b])
  next
    case (Cons p queue)
    have a: "p # queue = rQueue s @ filter (RRReady (rCurrentTime s)) (take (rLen s) (rProcesses s))"
      using sp(2) Cons by simp
    have b: "RRBody s = RRServe (s\<lparr>rProcesses := arr', rLen := n', rQueue := p # queue\<rparr>) p queue"
      using ad Cons by (simp add: RRBody_def Let_def)
    show thesis by (rule serve[OF a sp(1) sp(4) sp(3) sh b])
  qed
qed

lemma sum_list_filter_split:
  fixes f :: "'a \<Rightarrow> nat"
  shows "sum_list (map f (filter P xs)) + sum_list (map f (filter (\<lambda>x. \<not> P x) xs)) = sum_list (map f xs)"
  by (induction xs) auto

lemma RRBody_len:
  assumes len: "rLen s \<le> length (rProcesses s)"
  shows "rLen (RRBody s) \<le> length (rProcesses (RRBody s))"
  using len
proof (cases rule: RRBody_cases)
  case (idle arr')
  then show ?thesis using len by simp
next
  case (serve arr' n' p queue)
  then show ?thesis by (simp add: RRServe_fields)
qed

lemma RRBody_shifted:
  assumes len: "rLen s \<le> length (rProcesses s)" and sh: "shiftedFrom P (rProcesses s)"
  shows "shiftedFrom P (rProcesses (RRBody s))"
  using len
proof (cases rule: RRBody_cases)
  case (idle arr')
  from shiftedFrom_trans[OF sh idle(5)] show ?thesis by (simp add: idle(6))
next
  case (serve arr' n' p queue)
  from shiftedFrom_trans[OF sh serve(5)] show ?thesis by (simp add: serve(6) RRServe_fields)
qed

lemma RRBody_decreases:
  assumes len: "rLen s \<le> length (rProcesses s)" and c: "rQueue s \<noteq> [] \<or> 0 < rLen s"
  shows "(RRBody s, s) \<in> measures [RRWork, RRWaiting]"
proof -
  let ?L = "take (rLen s) (rProcesses s)"
  let ?t = "rCurrentTime s"
  let ?w = "\<lambda>p. nat (BurstDuration p) + 1"
  from len show ?thesis
  proof (cases rule: RRBody_cases)
    case (idle arr')
    from idle(1) c have ne: "?L \<noteq> []" using len by auto
    have late: "\<And>p. p \<in> set ?L \<Longrightarrow> ?t < ArrivalTime p"
    proof -
      fix p assume p: "p \<in> set ?L"
      with idle(2) have "\<not> RRReady ?t p" by (simp add: filter_empty_conv)
      then show "?t < ArrivalTime p" by (simp add: RRReady_def)
    qed
    have "sum_list (map (\<lambda>p. nat (ArrivalTime p - (?t + 1))) ?L)
        < sum_list (map (\<lambda>p. nat (ArrivalTime p - ?t)) ?L)"
      using ne
    proof (rule sum_list_strict_mono)
      fix p assume "p \<in> set ?L"
      from late[OF this] show "nat (ArrivalTime p - (?t + 1)) < nat (ArrivalTime p - ?t)" by simp
    qed
    then have "RRWaiting (RRBody s) < RRWaiting s"
      by (simp add: RRWaiting_def idle(6) idle(3))
    moreover have "RRWork (RRBody s) = RRWork s"
      by (simp add: RRWork_def idle(6) idle(3))
    ultimately show ?thesis by simp
  next
    case (serve arr' n' p queue)
    let ?R = "filter (RRReady ?t) ?L"
    let ?W = "filter (\<lambda>p. \<not> RRReady ?t p) ?L"
    have "RRWork s = sum_list (map ?w (rQueue s)) + (sum_list (map ?w ?R) + sum_list (map ?w ?W))"
      unfolding RRWork_def by (simp add: sum_list_filter_split)
    also have "\<dots> = sum_list (map ?w (rQueue s @ ?R)) + sum_list (map ?w ?W)" by simp
    also have "\<dots> = ?w p + sum_list (map ?w queue) + sum_list (map ?w ?W)"
      unfolding serve(1)[symmetric] by simp
    finally have old: "RRWork s = ?w p + sum_list (map ?w queue) + sum_list (map ?w ?W)" .
    have new: "RRWork (RRBody s) =
       (if timeQuantum < BurstDuration p then ?w (p\<lparr>BurstDuration := BurstDuration p - timeQuantum\<rparr>) else 0)
        + sum_list (map ?w queue) + sum_list (map ?w ?W)"
      by (simp add: RRWork_def serve(6) RRServe_fields serve(2))
    have "RRWork (RRBody s) < RRWork s"
      unfolding old new by (simp add: timeQuantum_def)
    then show ?thesis by simp
  qed
qed

lemma RRLoop_terminates:
  assumes "rLen s \<le> length (rProcesses s)"
  shows "\<exists>s'. RRLoop s = Some s'"
proof -
  have "wf (measures [RRWork, RRWaiting])" by simp
  then show ?thesis using assms
  proof (induction s rule: wf_induct_rule)
    case (less s)
    show ?case
    proof (cases "rQueue s \<noteq> [] \<or> 0 < rLen s")
      case True
      from RRBody_decreases[OF less.prems True] RRBody_len[OF less.prems]
      have "\<exists>s'. RRLoop (RRBody s) = Some s'" by (rule less.IH)
      moreover have "RRLoop s = RRLoop (RRBody s)"
        using True by (subst RRLoop.simps) (simp only: if_True)
      ultimately show ?thesis by simp
    next
      case False
      then have "RRLoop s = Some s" by (subst RRLoop.simps) (simp only: if_False)
      then show ?thesis by blast
    qed
  qed
qed




lemma RRRun_total:
  obtains s where "RRRun P = Some s" "rQueue s = []" "rLen s = 0" "shiftedFrom P (rProcesses s)"
proof -
  let ?I = "\<lambda>s. rLen s \<le> length (rProcesses s) \<and> shiftedFrom P (rProcesses s)"
  have len0: "rLen (RRInit P) \<le> length (rProcesses (RRInit P))" by (simp add: RRInit_def)
  from RRLoop_terminates[OF len0] obtain s where run: "RRLoop (RRInit P) = Some s" by blast
  have init: "?I (RRInit P)" using shiftedFrom_refl[of P] by (simp add: RRInit_def)
  have step: "\<And>s. ?I s \<Longrightarrow> rQueue s \<noteq> [] \<or> 0 < rLen s \<Longrightarrow> ?I (RRBody s)"
    using RRBody_len RRBody_shifted by blast
  from RRLoop_invariant[of "RRInit P" s ?I, OF run init step]
  have "?I s \<and> rQueue s = [] \<and> rLen s = 0" by blast
  then show thesis using run that by (simp add: RRRun_def)
qed



section \<open>The clock of shortest job first stays below the horizon\<close>

lemma maxArrival_ge: "p \<in> set ps \<Longrightarrow> ArrivalTime p \<le> maxArrival ps"
  by (induction ps) auto

lemma maxArrival_nonneg: "0 \<le> maxArrival ps"
  by (induction ps) auto

lemma burst_sum_mset:
  "mset xs = mset ys \<Longrightarrow> sum_list (map BurstDuration xs) = sum_list (map BurstDuration ys)"
  by (metis mset_map sum_mset_sum_list)

lemma SJFInit_Bound: "valid P \<Longrightarrow> SJFBound P (SJFInit P)"
  by (auto simp: SJFBound_def SJFInit_def valid_def list_all_iff horizon_def maxArrival_ge
      maxArrival_nonneg)

lemma SJFBody_Bound:
  assumes ok: "SJFOk s" and b: "SJFBound P s" and c: "sHeap s \<noteq> [] \<or> 0 < sLen s"
  shows "SJFBound P (SJFBody s)"
proof -
  let ?L = "take (sLen s) (sProcesses s)"
  let ?t = "sCurrentTime s"
  let ?B = "\<lambda>xs. sum_list (map BurstDuration xs)"
  from ok have len: "sLen s \<le> length (sProcesses s)" by (simp add: SJFOk_def)
  from b have
    b1: "\<forall>p\<in>set (sHeap s @ ?L).
           0 \<le> ArrivalTime p \<and> 0 < BurstDuration p \<and> ArrivalTime p \<le> maxArrival P" and
    b2: "0 \<le> ?t" and
    b3: "?t + ?B (sHeap s @ ?L) \<le> horizon P" and
    b4: "?B (sHeap s @ ?L) \<le> ?B P" and
    b5: "\<forall>r\<in>set (sSchedule s). 0 \<le> rowArrival r \<and> rowArrival r + rowWait r \<le> rowExit r"
    unfolding SJFBound_def by blast+
  from len show ?thesis
  proof (cases rule: SJFBody_cases)
    case (idle arr')
    from idle(1) c len have ne: "?L \<noteq> []" by auto
    then obtain q where q: "q \<in> set ?L" by (cases ?L) auto
    with idle(2) have "\<not> SJFReady ?t q" by (simp add: filter_empty_conv)
    with b1 q have "?t < ArrivalTime q" "ArrivalTime q \<le> maxArrival P"
      by (auto simp: SJFReady_def)
    then have t1: "?t + 1 \<le> maxArrival P" by linarith
    from b4 idle(1) have "?B ?L \<le> ?B P" by simp
    with t1 have "?t + 1 + ?B ?L \<le> horizon P" by (simp add: horizon_def)
    then show ?thesis
      unfolding SJFBound_def idle(6) using b1 b2 b4 b5 idle(1) by (simp add: idle(3))
  next
    case (serve arr' n' h p)
    let ?W = "filter (\<lambda>p. \<not> SJFReady ?t p) ?L"
    let ?R = "filter (SJFReady ?t) ?L"
    have part: "mset ?R + mset ?W = mset ?L"
      using multiset_partition[of "mset ?L" "SJFReady ?t"] by simp
    have ph: "add_mset p (mset (remove1 p h)) = mset h" using serve(2) by simp
    have hm: "mset h = mset (sHeap s) + mset ?R" by (simp add: serve(1))
    have "mset (p # remove1 p h @ ?W) = add_mset p (mset (remove1 p h)) + mset ?W" by simp
    also have "\<dots> = mset (sHeap s) + (mset ?R + mset ?W)" by (simp only: ph hm add.assoc)
    also have "\<dots> = mset (sHeap s @ ?L)" by (simp only: part mset_append)
    finally have "mset (p # remove1 p h @ ?W) = mset (sHeap s @ ?L)" .
    from burst_sum_mset[OF this]
    have sum: "BurstDuration p + ?B (remove1 p h @ ?W) = ?B (sHeap s @ ?L)" by simp
    have hsub: "set h \<subseteq> set (sHeap s @ ?L)" by (auto simp: serve(1))
    then have pin: "p \<in> set (sHeap s @ ?L)" using serve(2) by blast
    with b1 have pb: "0 < BurstDuration p" and pa: "0 \<le> ArrivalTime p" by blast+
    have sub: "set (remove1 p h @ ?W) \<subseteq> set (sHeap s @ ?L)"
      using hsub set_remove1_subset[of p h] by auto
    have c1: "\<forall>q\<in>set (remove1 p h @ ?W).
        0 \<le> ArrivalTime q \<and> 0 < BurstDuration q \<and> ArrivalTime q \<le> maxArrival P"
      using b1 sub by blast
    have c2: "0 \<le> ?t + BurstDuration p" using b2 pb by simp
    have c3: "?t + BurstDuration p + ?B (remove1 p h @ ?W) \<le> horizon P"
      using sum b3 by linarith
    have c4: "?B (remove1 p h @ ?W) \<le> ?B P" using sum b4 pb by linarith
    have c5: "\<forall>r\<in>set (sSchedule s @
         [\<lparr>rowID = ProcessID p, rowPriority = Priority p,
           rowBurst = BurstDuration p + (?t - ArrivalTime p), rowArrival = ArrivalTime p,
           rowWait = ?t - ArrivalTime p,
           rowTurnaround = ?t + BurstDuration p - ArrivalTime p,
           rowExit = ?t + BurstDuration p\<rparr>]).
        0 \<le> rowArrival r \<and> rowArrival r + rowWait r \<le> rowExit r"
      using b5 pa pb by auto
    show ?thesis
      unfolding SJFBound_def serve(8) SJFServe_fields
      using c1 c2 c3 c4 c5
      by (simp add: serve(4) del: set_append map_append sum_list_append)
  qed
qed

lemma SJFRun_bounded:
  assumes v: "valid P"
  obtains s where "SJFRun P = Some s" "SJFInv P s" "SJFBound P s" "sHeap s = []" "sLen s = 0"
proof -
  let ?I = "\<lambda>s. SJFOk s \<and> SJFInv P s \<and> SJFBound P s"
  from SJFLoop_terminates[OF SJFInit_Ok[OF v]]
  obtain s where run: "SJFLoop (SJFInit P) = Some s" by blast
  have init: "?I (SJFInit P)"
    using SJFInit_Ok[OF v] SJFInit_Inv[of P] SJFInit_Bound[OF v] by simp
  have step: "\<And>s. ?I s \<Longrightarrow> sHeap s \<noteq> [] \<or> 0 < sLen s \<Longrightarrow> ?I (SJFBody s)"
    using SJFBody_Ok SJFBody_Inv SJFBody_Bound by blast
  from SJFLoop_invariant[of "SJFInit P" s ?I, OF run init step]
  have "?I s \<and> sHeap s = [] \<and> sLen s = 0" by blast
  then show thesis using run that by (simp add: SJFRun_def)
qed

lemma SJF_rows_in_range:
  assumes inv: "SJFInv P s" and b: "SJFBound P s" and e: "sHeap s = []" "sLen s = 0"
    and h: "horizon P < 2 ^ 63" and r: "r \<in> set (sSchedule s)"
  shows "int64 (rowBurst r) \<and> int64 (rowWait r) \<and> int64 (rowTurnaround r) \<and> int64 (rowExit r) \<and>
         int64 (Start (sliceOfRow r)) \<and> int64 (Stop (sliceOfRow r))"
proof -
  from inv r have ok: "rowOK r" and ex: "rowExit r \<le> sCurrentTime s"
    unfolding SJFInv_def by blast+
  from b e have t: "sCurrentTime s \<le> horizon P" unfolding SJFBound_def by simp
  from b r have ar: "0 \<le> rowArrival r" "rowArrival r + rowWait r \<le> rowExit r"
    unfolding SJFBound_def by blast+
  from ok have w: "0 \<le> rowWait r" and x: "rowExit r = rowArrival r + rowBurst r"
    and tu: "rowTurnaround r = rowExit r - rowArrival r" by (simp_all add: rowOK_def)
  have up: "rowExit r < 2 ^ 63" using ex t h by linarith
  show ?thesis
    unfolding int64_def sliceOfRow_def using w x tu ar up by simp
qed

section \<open>First-come, first-served: the slices\<close>

lemma FCFSLoop_snoc: "FCFSLoop (ps @ [p]) = FCFSBody (FCFSLoop ps) p"
  by (simp add: FCFSLoop_def)

lemma FCFS_slices:
  "valid ps \<Longrightarrow> \<forall>q\<in>set (tl ps). 0 < ArrivalTime q \<Longrightarrow>
   map (\<lambda>sl. (PID sl, Stop sl - Start sl)) (fGantt (FCFSLoop ps)) =
     map (\<lambda>p. (ProcessID p, BurstDuration p)) ps"
proof (induction ps rule: rev_induct)
  case Nil
  show ?case by (simp add: FCFSLoop_def FCFSInit_def)
next
  case (snoc p ps)
  from snoc.prems(1) have v: "valid ps" and pa: "0 \<le> ArrivalTime p"
    by (simp_all add: valid_def)
  show ?case
  proof (cases ps)
    case Nil
    have "FCFSLoop [p] = FCFSBody FCFSInit p" by (simp add: FCFSLoop_def)
    then show ?thesis using pa Nil
      by (simp add: FCFSBody_def FCFSInit_def Let_def)
  next
    case (Cons a as)
    then have t: "tl (ps @ [p]) = tl ps @ [p]" by simp
    from snoc.prems(2) have later: "\<forall>q\<in>set (tl ps). 0 < ArrivalTime q" and pp: "0 < ArrivalTime p"
      unfolding t by simp_all
    from snoc.IH[OF v later] pp show ?thesis
      unfolding FCFSLoop_snoc by (simp add: FCFSBody_def Let_def)
  qed
qed

lemma sliceTime_keys:
  "map (\<lambda>sl. (PID sl, Stop sl - Start sl)) g = map (\<lambda>p. (ProcessID p, BurstDuration p)) ps \<Longrightarrow>
   sliceTime pid g = burstOf pid ps"
proof (induction g arbitrary: ps)
  case Nil
  then show ?case by (simp add: sliceTime_def burstOf_def)
next
  case (Cons sl g)
  then obtain p ps' where ps: "ps = p # ps'" by (cases ps) auto
  with Cons.prems have h: "PID sl = ProcessID p" "Stop sl - Start sl = BurstDuration p"
    and r: "map (\<lambda>sl. (PID sl, Stop sl - Start sl)) g = map (\<lambda>p. (ProcessID p, BurstDuration p)) ps'"
    by simp_all
  from Cons.IH[OF r] h show ?case
    unfolding ps by (simp add: sliceTime_def burstOf_def)
qed

lemma FCFS_sliceTime:
  assumes "valid P" "distinct (map ProcessID P)" "p \<in> set P" "\<forall>q\<in>set (tl P). 0 < ArrivalTime q"
  shows "sliceTime (ProcessID p) (timeline (FCFSSchedule P)) = BurstDuration p"
proof -
  have "timeline (FCFSSchedule P) = fGantt (FCFSLoop P)" by (simp add: FCFSSchedule_def Let_def)
  then have "sliceTime (ProcessID p) (timeline (FCFSSchedule P)) = burstOf (ProcessID p) P"
    using sliceTime_keys[OF FCFS_slices[OF assms(1,4)]] by simp
  then show ?thesis using burstOf_distinct[OF assms(2,3)] by simp
qed

lemma FCFS_slices_in_range:
  "valid ps \<Longrightarrow> \<forall>q\<in>set (tl ps). 0 < ArrivalTime q \<Longrightarrow>
   serviceTime (FCFSLoop ps) = sum_list (map BurstDuration ps) \<and>
   0 \<le> sum_list (map BurstDuration ps) \<and>
   (\<forall>sl\<in>set (fGantt (FCFSLoop ps)).
      0 \<le> Start sl \<and> Start sl \<le> Stop sl \<and> Stop sl \<le> sum_list (map BurstDuration ps))"
proof (induction ps rule: rev_induct)
  case Nil
  show ?case by (simp add: FCFSLoop_def FCFSInit_def)
next
  case (snoc p ps)
  from snoc.prems(1) have v: "valid ps" and pa: "0 \<le> ArrivalTime p" and pb: "0 < BurstDuration p"
    by (simp_all add: valid_def)
  show ?case
  proof (cases ps)
    case Nil
    have "FCFSLoop [p] = FCFSBody FCFSInit p" by (simp add: FCFSLoop_def)
    then show ?thesis using pa pb Nil
      by (simp add: FCFSBody_def FCFSInit_def Let_def)
  next
    case (Cons a as)
    then have t: "tl (ps @ [p]) = tl ps @ [p]" by simp
    from snoc.prems(2) have later: "\<forall>q\<in>set (tl ps). 0 < ArrivalTime q" and pp: "0 < ArrivalTime p"
      unfolding t by simp_all
    from snoc.IH[OF v later] have
      st: "serviceTime (FCFSLoop ps) = sum_list (map BurstDuration ps)" and
      nn: "0 \<le> sum_list (map BurstDuration ps)" and
      old: "\<forall>sl\<in>set (fGantt (FCFSLoop ps)).
              0 \<le> Start sl \<and> Start sl \<le> Stop sl \<and> Stop sl \<le> sum_list (map BurstDuration ps)" by blast+
    have old': "\<forall>sl\<in>set (fGantt (FCFSLoop ps)).
              0 \<le> Start sl \<and> Start sl \<le> Stop sl \<and> Stop sl \<le> sum_list (map BurstDuration ps) + BurstDuration p"
      using old pb by fastforce
    show ?thesis
      unfolding FCFSLoop_snoc using st nn old' pp pb by (simp add: FCFSBody_def Let_def)
  qed
qed

lemma sum_bursts_le_horizon: "sum_list (map BurstDuration ps) \<le> horizon ps"
  by (simp add: horizon_def maxArrival_nonneg)

lemma SJF_sliceTime_bounded:
  assumes v: "valid P" and d: "distinct (map ProcessID P)" and p: "p \<in> set P"
    and h: "horizon P < 2 ^ 63"
  shows "\<exists>r. SJFSchedule P = Some r \<and> sliceTime (ProcessID p) (timeline r) = BurstDuration p \<and>
           (\<forall>sl\<in>set (timeline r). int64 (Start sl) \<and> int64 (Stop sl))"
proof -
  from v obtain s where s: "SJFRun P = Some s" "SJFInv P s" "SJFBound P s" "sHeap s = []" "sLen s = 0"
    by (rule SJFRun_bounded)
  note f = SJF_final_rows[OF s(2,4,5)]
  have "sliceTime (ProcessID p) (sGantt s) = burstOf (ProcessID p) (map procOfRow (sSchedule s))"
    unfolding f(2) using f(3) by (rule sliceTime_rows)
  also have "\<dots> = burstOf (ProcessID p) P" using f(1) by (rule burstOf_mset)
  also have "\<dots> = BurstDuration p" using d p by (rule burstOf_distinct)
  finally have a: "sliceTime (ProcessID p) (sGantt s) = BurstDuration p" .
  have b: "\<forall>sl\<in>set (sGantt s). int64 (Start sl) \<and> int64 (Stop sl)"
    unfolding f(2) using SJF_rows_in_range[OF s(2) s(3) s(4) s(5) h] by auto
  show ?thesis using s(1) a b by (simp add: SJFSchedule_def SJFReport_def)
qed

lemma FCFS_timeline_in_range:
  assumes "valid P" "\<forall>q\<in>set (tl P). 0 < ArrivalTime q" "horizon P < 2 ^ 63"
  shows "\<forall>sl\<in>set (timeline (FCFSSchedule P)). int64 (Start sl) \<and> int64 (Stop sl)"
proof -
  have t: "timeline (FCFSSchedule P) = fGantt (FCFSLoop P)" by (simp add: FCFSSchedule_def Let_def)
  from FCFS_slices_in_range[OF assms(1,2)]
  have a: "\<forall>sl\<in>set (fGantt (FCFSLoop P)).
      0 \<le> Start sl \<and> Start sl \<le> Stop sl \<and> Stop sl \<le> sum_list (map BurstDuration P)"
    by blast
  have "sum_list (map BurstDuration P) < 2 ^ 63"
    using sum_bursts_le_horizon[of P] assms(3) by linarith
  with a show ?thesis unfolding t int64_def by fastforce
qed

section \<open>The claims\<close>

text \<open>
  C1, at failing inputs. A single process that arrives at time 5 finds the clock at 0:
  \<^verbatim>\<open>FCFSSchedule\<close> reports the waiting time \<open>0 - 5\<close>. \<^verbatim>\<open>SJFSchedule\<close> writes
  \<^verbatim>\<open>BurstDuration + waitTime\<close> into the Burst column: for the second process of
  \<^verbatim>\<open>[(1,5,0),(2,3,1)]\<close> the row is Burst 7, Wait 4, Turnaround 7, so that Wait is not
  Turnaround minus Burst.
\<close>

theorem rows_break_the_row_invariant:
  "map rowWait (rows (FCFSSchedule [mkProcess 1 1 5])) = [- 5] \<and>
   map_option (map rowBurst \<circ> rows) (SJFSchedule [mkProcess 1 5 0, mkProcess 2 3 1]) = Some [5, 7] \<and>
   map_option (map rowWait \<circ> rows) (SJFSchedule [mkProcess 1 5 0, mkProcess 2 3 1]) = Some [0, 4] \<and>
   map_option (map rowTurnaround \<circ> rows) (SJFSchedule [mkProcess 1 5 0, mkProcess 2 3 1]) = Some [5, 7]"
  by code_simp

text \<open>
  C2, as amended. Modelled from the spec as far as the order of the ready set goes
  (\<open>Less\<close> and \<open>heapMin\<close>). The statement is about the second declaration of
  \<^verbatim>\<open>SJFSchedule\<close>, and about the valid process sets whose horizon (latest arrival plus
  all bursts) is below \<open>2^63\<close>. For these the run returns; every process gets one row
  and one slice; the slice starts no earlier than the arrival and lasts the whole burst;
  a slice ends before the next one starts; and whenever a process served later had
  already arrived at the moment an earlier one was selected, it does not come before the
  earlier one in the order of the ready set (burst, then arrival, then ID): in
  particular its burst is not smaller. Every start, stop, wait, turnaround and exit, and
  the Burst column, is a value of \<^verbatim>\<open>int64\<close>, so that no operation of the program wraps
  and the values are those the program computes.
\<close>

theorem SJF_shortest_burst_first:
  assumes v: "valid P" and h: "horizon P < 2 ^ 63"
  shows "\<exists>r. SJFSchedule P = Some r \<and>
     mset (map procOfRow (rows r)) = mset P \<and>
     length (timeline r) = length (rows r) \<and>
     (\<forall>j<length (rows r).
        PID (timeline r ! j) = ProcessID (procOfRow (rows r ! j)) \<and>
        ArrivalTime (procOfRow (rows r ! j)) \<le> Start (timeline r ! j) \<and>
        Stop (timeline r ! j) = Start (timeline r ! j) + BurstDuration (procOfRow (rows r ! j)) \<and>
        (\<forall>i<j. Stop (timeline r ! i) \<le> Start (timeline r ! j) \<and>
           (ArrivalTime (procOfRow (rows r ! j)) \<le> Start (timeline r ! i) \<longrightarrow>
              \<not> Less (procOfRow (rows r ! j)) (procOfRow (rows r ! i)) \<and>
              BurstDuration (procOfRow (rows r ! i)) \<le> BurstDuration (procOfRow (rows r ! j))))) \<and>
     (\<forall>j<length (rows r).
        int64 (Start (timeline r ! j)) \<and> int64 (Stop (timeline r ! j)) \<and>
        int64 (rowBurst (rows r ! j)) \<and> int64 (rowWait (rows r ! j)) \<and>
        int64 (rowTurnaround (rows r ! j)) \<and> int64 (rowExit (rows r ! j)))"
proof -
  from v obtain s where s: "SJFRun P = Some s" "SJFInv P s" "SJFBound P s" "sHeap s = []" "sLen s = 0"
    by (rule SJFRun_bounded)
  note f = SJF_final_rows[OF s(2,4,5)]
  let ?R = "sSchedule s"
  have r: "SJFSchedule P = Some (SJFReport s)" using s(1) by (simp add: SJFSchedule_def)
  have rr: "rows (SJFReport s) = ?R" "timeline (SJFReport s) = map sliceOfRow ?R"
    by (simp_all add: SJFReport_def f(2))
  have c1: "mset (map procOfRow (rows (SJFReport s))) = mset P" unfolding rr by (rule f(1))
  have c2: "length (timeline (SJFReport s)) = length (rows (SJFReport s))" unfolding rr by simp
  have rng: "\<forall>j<length (rows (SJFReport s)).
        int64 (Start (timeline (SJFReport s) ! j)) \<and> int64 (Stop (timeline (SJFReport s) ! j)) \<and>
        int64 (rowBurst (rows (SJFReport s) ! j)) \<and> int64 (rowWait (rows (SJFReport s) ! j)) \<and>
        int64 (rowTurnaround (rows (SJFReport s) ! j)) \<and> int64 (rowExit (rows (SJFReport s) ! j))"
    unfolding rr
  proof (intro allI impI)
    fix j assume j: "j < length ?R"
    then have "?R ! j \<in> set ?R" by simp
    from SJF_rows_in_range[OF s(2) s(3) s(4) s(5) h this] j
    show "int64 (Start (map sliceOfRow ?R ! j)) \<and> int64 (Stop (map sliceOfRow ?R ! j)) \<and>
        int64 (rowBurst (?R ! j)) \<and> int64 (rowWait (?R ! j)) \<and>
        int64 (rowTurnaround (?R ! j)) \<and> int64 (rowExit (?R ! j))" by simp
  qed
  have per: "\<forall>j<length ?R.
        PID (map sliceOfRow ?R ! j) = ProcessID (procOfRow (?R ! j)) \<and>
        ArrivalTime (procOfRow (?R ! j)) \<le> Start (map sliceOfRow ?R ! j) \<and>
        Stop (map sliceOfRow ?R ! j) = Start (map sliceOfRow ?R ! j) + BurstDuration (procOfRow (?R ! j)) \<and>
        (\<forall>i<j. Stop (map sliceOfRow ?R ! i) \<le> Start (map sliceOfRow ?R ! j) \<and>
           (ArrivalTime (procOfRow (?R ! j)) \<le> Start (map sliceOfRow ?R ! i) \<longrightarrow>
              \<not> Less (procOfRow (?R ! j)) (procOfRow (?R ! i)) \<and>
              BurstDuration (procOfRow (?R ! i)) \<le> BurstDuration (procOfRow (?R ! j))))"
  proof (intro allI impI)
    fix j assume j: "j < length ?R"
    then have ok: "rowOK (?R ! j)" using f(3) by simp
    have a: "PID (map sliceOfRow ?R ! j) = ProcessID (procOfRow (?R ! j)) \<and>
        ArrivalTime (procOfRow (?R ! j)) \<le> Start (map sliceOfRow ?R ! j) \<and>
        Stop (map sliceOfRow ?R ! j) = Start (map sliceOfRow ?R ! j) + BurstDuration (procOfRow (?R ! j))"
      using ok j by (simp add: sliceOfRow_def procOfRow_def rowOK_def)
    have b: "\<forall>i<j. Stop (map sliceOfRow ?R ! i) \<le> Start (map sliceOfRow ?R ! j) \<and>
           (ArrivalTime (procOfRow (?R ! j)) \<le> Start (map sliceOfRow ?R ! i) \<longrightarrow>
              \<not> Less (procOfRow (?R ! j)) (procOfRow (?R ! i)) \<and>
              BurstDuration (procOfRow (?R ! i)) \<le> BurstDuration (procOfRow (?R ! j)))"
    proof (intro allI impI)
      fix i assume i: "i < j"
      with f(4) j have bf: "SJFBefore (?R ! i) (?R ! j)"
        by (simp add: sorted_wrt_iff_nth_less)
      have il: "i < length ?R" using i j by simp
      have nl: "\<not> Less q p' \<Longrightarrow> BurstDuration p' \<le> BurstDuration q" for p' q
        by (auto simp: Less_def)
      show "Stop (map sliceOfRow ?R ! i) \<le> Start (map sliceOfRow ?R ! j) \<and>
           (ArrivalTime (procOfRow (?R ! j)) \<le> Start (map sliceOfRow ?R ! i) \<longrightarrow>
              \<not> Less (procOfRow (?R ! j)) (procOfRow (?R ! i)) \<and>
              BurstDuration (procOfRow (?R ! i)) \<le> BurstDuration (procOfRow (?R ! j)))"
        using bf il j nl[of "procOfRow (?R ! j)" "procOfRow (?R ! i)"]
        by (simp add: SJFBefore_def sliceOfRow_def) (simp add: procOfRow_def)
    qed
    from a b show "PID (map sliceOfRow ?R ! j) = ProcessID (procOfRow (?R ! j)) \<and>
        ArrivalTime (procOfRow (?R ! j)) \<le> Start (map sliceOfRow ?R ! j) \<and>
        Stop (map sliceOfRow ?R ! j) = Start (map sliceOfRow ?R ! j) + BurstDuration (procOfRow (?R ! j)) \<and>
        (\<forall>i<j. Stop (map sliceOfRow ?R ! i) \<le> Start (map sliceOfRow ?R ! j) \<and>
           (ArrivalTime (procOfRow (?R ! j)) \<le> Start (map sliceOfRow ?R ! i) \<longrightarrow>
              \<not> Less (procOfRow (?R ! j)) (procOfRow (?R ! i)) \<and>
              BurstDuration (procOfRow (?R ! i)) \<le> BurstDuration (procOfRow (?R ! j))))"
      by blast
  qed
  from per have per': "\<forall>j<length (rows (SJFReport s)).
        PID (timeline (SJFReport s) ! j) = ProcessID (procOfRow (rows (SJFReport s) ! j)) \<and>
        ArrivalTime (procOfRow (rows (SJFReport s) ! j)) \<le> Start (timeline (SJFReport s) ! j) \<and>
        Stop (timeline (SJFReport s) ! j) =
          Start (timeline (SJFReport s) ! j) + BurstDuration (procOfRow (rows (SJFReport s) ! j)) \<and>
        (\<forall>i<j. Stop (timeline (SJFReport s) ! i) \<le> Start (timeline (SJFReport s) ! j) \<and>
           (ArrivalTime (procOfRow (rows (SJFReport s) ! j)) \<le> Start (timeline (SJFReport s) ! i) \<longrightarrow>
              \<not> Less (procOfRow (rows (SJFReport s) ! j)) (procOfRow (rows (SJFReport s) ! i)) \<and>
              BurstDuration (procOfRow (rows (SJFReport s) ! i))
                \<le> BurstDuration (procOfRow (rows (SJFReport s) ! j))))"
    unfolding rr .
  show ?thesis by (intro exI[of _ "SJFReport s"] conjI r c1 c2 per' rng)
qed

theorem SJF_shortest_burst_first_witness:
  "valid [mkProcess 1 5 0, mkProcess 2 3 1, mkProcess 3 1 2] \<and>
   horizon [mkProcess 1 5 0, mkProcess 2 3 1, mkProcess 3 1 2] < 2 ^ 63 \<and>
   map_option (map rowID \<circ> rows) (SJFSchedule [mkProcess 1 5 0, mkProcess 2 3 1, mkProcess 3 1 2])
     = Some [1, 3, 2] \<and>
   (\<exists>r. SJFSchedule [mkProcess 1 5 0, mkProcess 2 3 1, mkProcess 3 1 2] = Some r \<and>
        mset (map procOfRow (rows r)) = mset [mkProcess 1 5 0, mkProcess 2 3 1, mkProcess 3 1 2] \<and>
        length (timeline r) = length (rows r))"
proof -
  let ?P = "[mkProcess 1 5 0, mkProcess 2 3 1, mkProcess 3 1 2]"
  have v: "valid ?P" by code_simp
  have h: "horizon ?P < 2 ^ 63" by code_simp
  have o: "map_option (map rowID \<circ> rows) (SJFSchedule ?P) = Some [1, 3, 2]" by code_simp
  from SJF_shortest_burst_first[OF v h] v h o show ?thesis by blast
qed

text \<open>
  C2, counterexample. The first declaration of \<^verbatim>\<open>SJFSchedule\<close> on \<^verbatim>\<open>[(1,3,0),(2,1,1)]\<close>.
  The first turn serves process 1 for one time unit and puts it back with 2 units left.
  The second turn pushes both processes of the slice anew, pops process 2 and completes
  it at time 2 (turnaround 1): process 1, selected at time 0, has been interrupted and is
  still unfinished, the heap holding its copy with 2 units left beside the new copy.
\<close>

theorem first_SJFSchedule_preempts:
  "SJFUnitBody [mkProcess 1 3 0, mkProcess 2 1 1] SJFUnitInit =
     \<lparr>uHeap = [mkProcess 1 2 0], uCurrentTime = 1, uTurnaround = 0, uTotalWait = 0,
      uCompleted = 0\<rparr> \<and>
   SJFUnitBody [mkProcess 1 3 0, mkProcess 2 1 1]
     (SJFUnitBody [mkProcess 1 3 0, mkProcess 2 1 1] SJFUnitInit) =
     \<lparr>uHeap = [mkProcess 1 2 0, mkProcess 1 3 0], uCurrentTime = 2, uTurnaround = 1,
      uTotalWait = 1, uCompleted = 1\<rparr>"
  by code_simp

text \<open>
  C3, at failing inputs. For a single process of burst 1 arriving at 5 the loop of
  \<^verbatim>\<open>FCFSSchedule\<close> sets the waiting time to \<open>- 5\<close>, the start to 0 and the completion
  to 1, with the clock never moved to the arrival. For two processes arriving at 0 the
  second iteration skips the assignment of \<^verbatim>\<open>waitingTime\<close> and keeps the 0 of the first:
  the second process gets waiting time 0, start 0 and completion 3 while the clock stands
  at 5 and ends at 8.
\<close>

theorem FCFS_clock_not_followed:
  "map rowWait (rows (FCFSSchedule [mkProcess 1 1 5])) = [- 5] \<and>
   map rowExit (rows (FCFSSchedule [mkProcess 1 1 5])) = [1] \<and>
   timeline (FCFSSchedule [mkProcess 1 1 5]) = [\<lparr>PID = 1, Start = 0, Stop = 1\<rparr>] \<and>
   map rowWait (rows (FCFSSchedule [mkProcess 1 5 0, mkProcess 2 3 0])) = [0, 0] \<and>
   map rowExit (rows (FCFSSchedule [mkProcess 1 5 0, mkProcess 2 3 0])) = [5, 3] \<and>
   timeline (FCFSSchedule [mkProcess 1 5 0, mkProcess 2 3 0]) =
     [\<lparr>PID = 1, Start = 0, Stop = 5\<rparr>, \<lparr>PID = 2, Start = 0, Stop = 8\<rparr>]"
  by code_simp

text \<open>
  C4. For the input \<^verbatim>\<open>[(1,5,0),(2,3,1),(3,1,2)]\<close> (id, burst, arrival)
  \<^verbatim>\<open>FCFSSchedule\<close> starts process 1 at 0 with waiting time 0, process 2 at 5 with
  waiting time 4 and process 3 at 8 with waiting time 6; the average waiting time is
  \<open>(0 + 4 + 6) / 3\<close>, printed as 3.33.
\<close>

theorem FCFS_example:
  "map PID (timeline (FCFSSchedule [mkProcess 1 5 0, mkProcess 2 3 1, mkProcess 3 1 2])) = [1, 2, 3] \<and>
   map Start (timeline (FCFSSchedule [mkProcess 1 5 0, mkProcess 2 3 1, mkProcess 3 1 2])) = [0, 5, 8] \<and>
   map rowID (rows (FCFSSchedule [mkProcess 1 5 0, mkProcess 2 3 1, mkProcess 3 1 2])) = [1, 2, 3] \<and>
   map rowWait (rows (FCFSSchedule [mkProcess 1 5 0, mkProcess 2 3 1, mkProcess 3 1 2])) = [0, 4, 6] \<and>
   aveWait (FCFSSchedule [mkProcess 1 5 0, mkProcess 2 3 1, mkProcess 3 1 2]) = Finite ((0 + 4 + 6) / 3) \<and>
   fmt2 (aveWait (FCFSSchedule [mkProcess 1 5 0, mkProcess 2 3 1, mkProcess 3 1 2])) = Some 333"
  by code_simp

theorem FCFS_example_witness:
  "fmt2 (aveWait (FCFSSchedule [mkProcess 1 5 0, mkProcess 2 3 1, mkProcess 3 1 2])) = Some 333"
  using FCFS_example by blast

text \<open>
  C5, at a failing input. For the single process \<^verbatim>\<open>(1,1,0)\<close> the loop of \<^verbatim>\<open>RRSchedule\<close>
  ends with turnaround 1, waiting 0 and clock 1, and with \<^verbatim>\<open>len(processes)\<close> equal to 0:
  the three figures are \<open>0/0\<close>, \<open>1/0\<close> and \<open>0/1\<close> instead of 0, 1 and 1.
\<close>

theorem RR_metrics_single_process:
  "RRSchedule [mkProcess 1 1 0] =
     Some \<lparr>rows = [], timeline = [], aveWait = NaN, aveTurnaround = PosInf,
           aveThroughput = Finite 0\<rparr>"
  by code_simp

text \<open>
  C6, as amended. For every valid process set with pairwise distinct process IDs whose
  horizon (latest arrival plus all bursts) is below \<open>2^63\<close>, and every process of it:
  the slices that \<^verbatim>\<open>SJFSchedule\<close> emits for its ID have durations that sum to its burst;
  so have those of \<^verbatim>\<open>FCFSSchedule\<close> when every process but the first arrives after time
  0; in both timelines every start and stop is a value of \<^verbatim>\<open>int64\<close>, so that no operation
  behind them wraps. \<^verbatim>\<open>RRSchedule\<close> returns and emits no slice at all.
\<close>

theorem slice_durations_sum_to_burst:
  assumes "valid P" and "distinct (map ProcessID P)" and "p \<in> set P" and "horizon P < 2 ^ 63"
  shows "(\<exists>r. SJFSchedule P = Some r \<and> sliceTime (ProcessID p) (timeline r) = BurstDuration p \<and>
             (\<forall>sl\<in>set (timeline r). int64 (Start sl) \<and> int64 (Stop sl))) \<and>
         ((\<forall>q\<in>set (tl P). 0 < ArrivalTime q) \<longrightarrow>
            sliceTime (ProcessID p) (timeline (FCFSSchedule P)) = BurstDuration p \<and>
            (\<forall>sl\<in>set (timeline (FCFSSchedule P)). int64 (Start sl) \<and> int64 (Stop sl))) \<and>
         (\<exists>r. RRSchedule P = Some r \<and> timeline r = [])"
proof (intro conjI impI)
  show "\<exists>r. SJFSchedule P = Some r \<and> sliceTime (ProcessID p) (timeline r) = BurstDuration p \<and>
             (\<forall>sl\<in>set (timeline r). int64 (Start sl) \<and> int64 (Stop sl))"
    using assms by (rule SJF_sliceTime_bounded)
  show "sliceTime (ProcessID p) (timeline (FCFSSchedule P)) = BurstDuration p"
    if "\<forall>q\<in>set (tl P). 0 < ArrivalTime q"
    using assms(1,2,3) that by (rule FCFS_sliceTime)
  show "\<forall>sl\<in>set (timeline (FCFSSchedule P)). int64 (Start sl) \<and> int64 (Stop sl)"
    if "\<forall>q\<in>set (tl P). 0 < ArrivalTime q"
    using assms(1) that assms(4) by (rule FCFS_timeline_in_range)
  obtain s where "RRRun P = Some s" by (rule RRRun_total)
  then show "\<exists>r. RRSchedule P = Some r \<and> timeline r = []"
    by (simp add: RRSchedule_def RRReport_def)
qed

theorem slice_durations_sum_to_burst_witness:
  "sliceTime 2 (timeline (FCFSSchedule [mkProcess 1 5 0, mkProcess 2 3 1, mkProcess 3 1 2])) = 3 \<and>
   (\<exists>r. SJFSchedule [mkProcess 1 5 0, mkProcess 2 3 1, mkProcess 3 1 2] = Some r \<and>
        sliceTime 2 (timeline r) = 3)"
proof -
  let ?P = "[mkProcess 1 5 0, mkProcess 2 3 1, mkProcess 3 1 2]"
  have a: "valid ?P" by code_simp
  have b: "distinct (map ProcessID ?P)" by (simp add: mkProcess_def)
  have c: "mkProcess 2 3 1 \<in> set ?P" by simp
  have d: "\<forall>q\<in>set (tl ?P). 0 < ArrivalTime q" by (simp add: mkProcess_def)
  have e: "ProcessID (mkProcess 2 3 1) = 2" "BurstDuration (mkProcess 2 3 1) = 3"
    by (simp_all add: mkProcess_def)
  have h: "horizon ?P < 2 ^ 63" by code_simp
  from slice_durations_sum_to_burst[OF a b c h] d show ?thesis unfolding e by blast
qed

text \<open>
  C6, counterexample. \<^verbatim>\<open>RRSchedule\<close> serves the process \<^verbatim>\<open>(1,1,0)\<close> to completion and
  emits no slice for it: the durations for ID 1 sum to 0, the burst is 1.
\<close>

theorem RR_emits_no_slice:
  "map_option (sliceTime 1 \<circ> timeline) (RRSchedule [mkProcess 1 1 0]) = Some 0 \<and>
   BurstDuration (mkProcess 1 1 0) = 1"
  by code_simp

text \<open>
  C7, as amended. \<^verbatim>\<open>RRSchedule\<close> has no time-quantum parameter: the quantum is the
  constant 2 set inside the function. It is positive, no process set is rejected (the run
  returns for every input), and each turn of a process advances the clock by the smaller
  of its remaining burst and 2, the process going back to the tail of the queue with 2
  units less when more than 2 remained.
\<close>

theorem RR_quantum_is_fixed:
  "timeQuantum = 2 \<and>
   (\<exists>r. RRSchedule processes = Some r) \<and>
   rCurrentTime (RRServe s p queue) = rCurrentTime s + min (BurstDuration p) 2 \<and>
   rQueue (RRServe s p queue) =
     (if 2 < BurstDuration p then queue @ [p\<lparr>BurstDuration := BurstDuration p - 2\<rparr>] else queue)"
proof -
  obtain s' where "RRRun processes = Some s'" by (rule RRRun_total)
  then have "\<exists>r. RRSchedule processes = Some r" by (simp add: RRSchedule_def)
  then show ?thesis by (simp add: RRServe_fields timeQuantum_def min_def)
qed

theorem RR_quantum_is_fixed_witness:
  "\<exists>r. RRSchedule [mkProcess 1 5 0] = Some r"
  using RR_quantum_is_fixed[of "[mkProcess 1 5 0]"] by blast

text \<open>
  C7, counterexample. The run on the process \<^verbatim>\<open>(1,5,0)\<close> is given no quantum and is
  cut into turns of 2, 2 and 1: it ends at time 5 with the accumulated waiting time
  \<open>5 - 0 - 1\<close>, the last turn's remaining burst being 1.
\<close>

theorem RR_runs_with_quantum_two:
  "timeQuantum = 2 \<and>
   RRRun [mkProcess 1 5 0] =
     Some \<lparr>rProcesses = [mkProcess 1 5 0], rLen = 0, rQueue = [], rTotalWait = 4,
           rTurnaround = 5, rCurrentTime = 5\<rparr>"
  by code_simp

text \<open>
  C8, as amended. On the empty process set every policy yields no rows and no timeline,
  and none of the three figures is guarded: each is the quotient \<open>0 / 0\<close>, which is NaN.
\<close>

theorem empty_set_unguarded:
  "FCFSSchedule [] =
     \<lparr>rows = [], timeline = [], aveWait = NaN, aveTurnaround = NaN, aveThroughput = NaN\<rparr> \<and>
   SJFSchedule [] =
     Some \<lparr>rows = [], timeline = [], aveWait = NaN, aveTurnaround = NaN, aveThroughput = NaN\<rparr> \<and>
   RRSchedule [] =
     Some \<lparr>rows = [], timeline = [], aveWait = NaN, aveTurnaround = NaN, aveThroughput = NaN\<rparr>"
  by code_simp

theorem empty_set_unguarded_witness:
  "aveWait (FCFSSchedule []) = NaN \<and> map_option aveThroughput (SJFSchedule []) = Some NaN"
  using empty_set_unguarded by (metis Report.select_convs(3,5) option.simps(9))

text \<open>
  C8, counterexample. On the empty process set \<^verbatim>\<open>FCFSSchedule\<close> computes the throughput
  as the quotient \<open>0 / 0\<close>.
\<close>

theorem FCFS_empty_throughput_unguarded:
  "aveThroughput (FCFSSchedule []) = NaN"
  by code_simp

text \<open>
  C9, as amended. \<^verbatim>\<open>SJFSchedule\<close> and \<^verbatim>\<open>RRSchedule\<close> take no copy of the slice: they
  remove the admitted processes from it in place. After the call the caller's slice has
  its old length and each cell holds the record that was in that cell or in a later one
  before the call. (\<^verbatim>\<open>FCFSSchedule\<close> only reads the slice. The records are copied by
  value into the heap and the queue, and the burst that \<^verbatim>\<open>RRSchedule\<close> decrements is
  that of the queue's copy.)
\<close>

theorem callers_slice_is_shifted:
  "(valid P \<longrightarrow> (\<exists>s. SJFRun P = Some s \<and> shiftedFrom P (sProcesses s))) \<and>
   (\<exists>s. RRRun P = Some s \<and> shiftedFrom P (rProcesses s))"
proof (intro conjI impI)
  assume "valid P"
  then obtain s where "SJFRun P = Some s" "shiftedFrom P (sProcesses s)"
    by (rule SJFRun_result)
  then show "\<exists>s. SJFRun P = Some s \<and> shiftedFrom P (sProcesses s)" by blast
next
  obtain s where "RRRun P = Some s" "shiftedFrom P (rProcesses s)"
    by (rule RRRun_total)
  then show "\<exists>s. RRRun P = Some s \<and> shiftedFrom P (rProcesses s)" by blast
qed

theorem callers_slice_is_shifted_witness:
  "valid [mkProcess 1 4 0, mkProcess 2 2 0] \<and>
   (\<exists>s. SJFRun [mkProcess 1 4 0, mkProcess 2 2 0] = Some s \<and>
        shiftedFrom [mkProcess 1 4 0, mkProcess 2 2 0] (sProcesses s))"
proof -
  have v: "valid [mkProcess 1 4 0, mkProcess 2 2 0]" by code_simp
  with callers_slice_is_shifted[of "[mkProcess 1 4 0, mkProcess 2 2 0]"] show ?thesis by blast
qed

text \<open>
  C9, counterexample. After \<^verbatim>\<open>SJFSchedule\<close> or \<^verbatim>\<open>RRSchedule\<close> on the processes
  \<^verbatim>\<open>(1,4,0)\<close> and \<^verbatim>\<open>(2,2,0)\<close> the caller's slice holds the second process twice.
\<close>

theorem callers_slice_overwritten:
  "map_option sProcesses (SJFRun [mkProcess 1 4 0, mkProcess 2 2 0]) =
     Some [mkProcess 2 2 0, mkProcess 2 2 0] \<and>
   map_option rProcesses (RRRun [mkProcess 1 4 0, mkProcess 2 2 0]) =
     Some [mkProcess 2 2 0, mkProcess 2 2 0]"
  by code_simp



end
